theory Spec2Isabelle
  imports Complex_Main "HOL-Library.AList" "HOL-Library.Multiset" "HOL-Library.Sublist"
begin

section \<open>JavaScript values\<close>

text \<open>
  The analytics pipeline of \<^verbatim>\<open>ExpenseAnalytics\<close> (components/ExpenseList.tsx) computes with
  JavaScript numbers. A number is modelled as an exact rational when it is finite (no
  rounding, no negative zero) or as one of the three IEEE special values, so that the
  unguarded divisions of the code keep their results (\<open>0 / 0\<close> is \<open>NaN\<close>).
\<close>

datatype jsnum = Fin rat | PosInf | NegInf | NaN

instantiation jsnum :: comm_monoid_add
begin

definition zero_jsnum :: jsnum where
  "zero_jsnum = Fin 0"

fun plus_jsnum :: "jsnum \<Rightarrow> jsnum \<Rightarrow> jsnum" where
  "plus_jsnum NaN b = NaN"
| "plus_jsnum a NaN = NaN"
| "plus_jsnum (Fin a) (Fin b) = Fin (a + b)"
| "plus_jsnum (Fin a) PosInf = PosInf"
| "plus_jsnum (Fin a) NegInf = NegInf"
| "plus_jsnum PosInf (Fin b) = PosInf"
| "plus_jsnum PosInf PosInf = PosInf"
| "plus_jsnum PosInf NegInf = NaN"
| "plus_jsnum NegInf (Fin b) = NegInf"
| "plus_jsnum NegInf NegInf = NegInf"
| "plus_jsnum NegInf PosInf = NaN"

instance
proof (standard, goal_cases)
  case (1 u v w)
  show ?case
    by (cases u; cases v; cases w; simp)
next
  case (2 u v)
  show ?case
    by (cases u; cases v; simp)
next
  case (3 u)
  show ?case
    by (cases u; simp add: zero_jsnum_def)
qed

end

fun js_neg :: "jsnum \<Rightarrow> jsnum" where
  "js_neg (Fin a) = Fin (- a)"
| "js_neg PosInf = NegInf"
| "js_neg NegInf = PosInf"
| "js_neg NaN = NaN"

text \<open>\<open>a - b\<close>\<close>

definition js_sub :: "jsnum \<Rightarrow> jsnum \<Rightarrow> jsnum" where
  "js_sub a b = a + js_neg b"

text \<open>\<open>a / b\<close>; a zero divisor is the positive zero.\<close>

fun js_div :: "jsnum \<Rightarrow> jsnum \<Rightarrow> jsnum" where
  "js_div NaN b = NaN"
| "js_div a NaN = NaN"
| "js_div (Fin a) (Fin b) =
     (if b = 0 then (if a = 0 then NaN else if 0 < a then PosInf else NegInf)
      else Fin (a / b))"
| "js_div (Fin a) PosInf = Fin 0"
| "js_div (Fin a) NegInf = Fin 0"
| "js_div PosInf (Fin b) = (if 0 \<le> b then PosInf else NegInf)"
| "js_div NegInf (Fin b) = (if 0 \<le> b then NegInf else PosInf)"
| "js_div PosInf PosInf = NaN"
| "js_div PosInf NegInf = NaN"
| "js_div NegInf PosInf = NaN"
| "js_div NegInf NegInf = NaN"

text \<open>\<open>a * b\<close>\<close>

fun js_mul :: "jsnum \<Rightarrow> jsnum \<Rightarrow> jsnum" where
  "js_mul NaN b = NaN"
| "js_mul a NaN = NaN"
| "js_mul (Fin a) (Fin b) = Fin (a * b)"
| "js_mul (Fin a) PosInf = (if a = 0 then NaN else if 0 < a then PosInf else NegInf)"
| "js_mul (Fin a) NegInf = (if a = 0 then NaN else if 0 < a then NegInf else PosInf)"
| "js_mul PosInf (Fin b) = (if b = 0 then NaN else if 0 < b then PosInf else NegInf)"
| "js_mul NegInf (Fin b) = (if b = 0 then NaN else if 0 < b then NegInf else PosInf)"
| "js_mul PosInf PosInf = PosInf"
| "js_mul PosInf NegInf = NegInf"
| "js_mul NegInf PosInf = NegInf"
| "js_mul NegInf NegInf = PosInf"

text \<open>\<open>a > 0\<close>, the test a sort makes on what its comparator returns (\<open>NaN\<close> counts as 0).\<close>

fun js_pos :: "jsnum \<Rightarrow> bool" where
  "js_pos (Fin a) = (0 < a)"
| "js_pos PosInf = True"
| "js_pos NegInf = False"
| "js_pos NaN = False"

text \<open>
  What a property of a bucket can hold: a number, a string, or \<open>Opaque\<close>: a truthy value
  whose content is not tracked (the locale's text of a label, the text a string
  concatenation builds, a built-in inherited from \<^verbatim>\<open>Object.prototype\<close>).
\<close>

datatype jsval = Num jsnum | Str string | Opaque

fun truthy :: "jsval \<Rightarrow> bool" where
  "truthy (Num n) = (n \<noteq> NaN \<and> n \<noteq> Fin 0)"
| "truthy (Str s) = (s \<noteq> [])"
| "truthy Opaque = True"

text \<open>\<open>v || 0\<close>, where \<open>None\<close> is \<^verbatim>\<open>undefined\<close>.\<close>

fun or0 :: "jsval option \<Rightarrow> jsval" where
  "or0 None = Num (Fin 0)"
| "or0 (Some v) = (if truthy v then v else Num (Fin 0))"

text \<open>\<open>v + n\<close> for a number \<open>n\<close>: addition of numbers, concatenation when \<open>v\<close> is text.\<close>

fun js_plus :: "jsval \<Rightarrow> jsnum \<Rightarrow> jsval" where
  "js_plus (Num a) n = Num (a + n)"
| "js_plus (Str s) n = Opaque"
| "js_plus Opaque n = Opaque"

text \<open>
  An object literal: its own properties in insertion order. Reading a property that is
  not an own one finds the members every object inherits from \<^verbatim>\<open>Object.prototype\<close>; writing
  \<^verbatim>\<open>__proto__\<close> a primitive value changes nothing.
\<close>

type_synonym jsobject = "(string \<times> jsval) list"

definition Object_prototype_keys :: "string list" where
  "Object_prototype_keys =
     [''constructor'', ''__defineGetter__'', ''__defineSetter__'', ''hasOwnProperty'',
      ''__lookupGetter__'', ''__lookupSetter__'', ''isPrototypeOf'',
      ''propertyIsEnumerable'', ''toString'', ''valueOf'', ''__proto__'',
      ''toLocaleString'']"

definition get_prop :: "jsobject \<Rightarrow> string \<Rightarrow> jsval option" where
  "get_prop obj k =
     (case map_of obj k of
        Some v \<Rightarrow> Some v
      | None \<Rightarrow> if k \<in> set Object_prototype_keys then Some Opaque else None)"

definition set_prop :: "jsobject \<Rightarrow> string \<Rightarrow> jsval \<Rightarrow> jsobject" where
  "set_prop obj k v = (if k = ''__proto__'' then obj else AList.update k v obj)"

section \<open>Numbers as text, dates\<close>

text \<open>
  \<^verbatim>\<open>String(n)\<close> of an integer: its decimal digits, with a minus sign when negative (so
  JavaScript writes every integer below \<open>10^21\<close> in absolute value).
\<close>

definition digit_char :: "nat \<Rightarrow> char" where
  "digit_char d = char_of (48 + d)"

definition is_digit :: "char \<Rightarrow> bool" where
  "is_digit c = (48 \<le> (of_char c :: nat) \<and> (of_char c :: nat) \<le> 57)"

definition digit_val :: "char \<Rightarrow> nat" where
  "digit_val c = of_char c - 48"

fun show_nat :: "nat \<Rightarrow> string" where
  "show_nat n = (if n < 10 then [digit_char n] else show_nat (n div 10) @ [digit_char (n mod 10)])"

declare show_nat.simps [simp del]

definition show_int :: "int \<Rightarrow> string" where
  "show_int i = (if i < 0 then CHR ''-'' # show_nat (nat (- i)) else show_nat (nat i))"

text \<open>\<^verbatim>\<open>s.padStart(2, "0")\<close>\<close>

definition padStart2 :: "string \<Rightarrow> string" where
  "padStart2 s = replicate (2 - length s) CHR ''0'' @ s"

text \<open>
  The time value of the first day of a month, in UTC, as ECMAScript defines it
  (\<^verbatim>\<open>DayFromYear\<close>, \<^verbatim>\<open>InLeapYear\<close>, the table of \<^verbatim>\<open>MonthFromTime\<close>, \<^verbatim>\<open>TimeClip\<close>).
\<close>

definition DayFromYear :: "int \<Rightarrow> int" where
  "DayFromYear y =
     365 * (y - 1970) + (y - 1969) div 4 - (y - 1901) div 100 + (y - 1601) div 400"

definition InLeapYear :: "int \<Rightarrow> int" where
  "InLeapYear y = (if y mod 4 = 0 \<and> (y mod 100 \<noteq> 0 \<or> y mod 400 = 0) then 1 else 0)"

definition DayWithinYear :: "int \<Rightarrow> int \<Rightarrow> int" where
  "DayWithinYear y m =
     (if m = 1 then 0 else if m = 2 then 31
      else [59, 90, 120, 151, 181, 212, 243, 273, 304, 334] ! nat (m - 3) + InLeapYear y)"

definition msPerDay :: int where
  "msPerDay = 86400000"

definition TimeClip :: "int \<Rightarrow> jsnum" where
  "TimeClip t = (if 8640000000000000 < \<bar>t\<bar> then NaN else Fin (of_int t))"

definition month_time :: "int \<Rightarrow> int \<Rightarrow> jsnum" where
  "month_time y m =
     (if 1 \<le> m \<and> m \<le> 12 then TimeClip ((DayFromYear y + DayWithinYear y m) * msPerDay)
      else NaN)"

definition digits_val :: "string \<Rightarrow> int" where
  "digits_val s = int (foldl (\<lambda>a c. 10 * a + digit_val c) 0 s)"

text \<open>
  \<^verbatim>\<open>new Date(s).getTime()\<close> for the two shapes of the date-time string format that the
  text of a bucket's month can have: \<^verbatim>\<open>YYYY-MM\<close> and the expanded year \<^verbatim>\<open>-YYYYYY-MM\<close>.
  A string of another shape is left by ECMAScript to the engine's own fallback; here
  it is an invalid date, whose time is \<open>NaN\<close>.
\<close>

fun date_parse :: "string \<Rightarrow> jsnum" where
  "date_parse [y1, y2, y3, y4, d, m1, m2] =
     (if d = CHR ''-'' \<and> list_all is_digit [y1, y2, y3, y4, m1, m2]
      then month_time (digits_val [y1, y2, y3, y4]) (digits_val [m1, m2])
      else NaN)"
| "date_parse [sg, y1, y2, y3, y4, y5, y6, d, m1, m2] =
     (if sg = CHR ''-'' \<and> d = CHR ''-'' \<and> list_all is_digit [y1, y2, y3, y4, y5, y6, m1, m2]
         \<and> digits_val [y1, y2, y3, y4, y5, y6] \<noteq> 0
      then month_time (- digits_val [y1, y2, y3, y4, y5, y6]) (digits_val [m1, m2])
      else NaN)"
| "date_parse s = NaN"

text \<open>
  \<^verbatim>\<open>new Date(v).getTime()\<close> of a property: the time of the text of a month; a number is
  itself a time value, cut to an integer; text that is not tracked, like a missing
  property, gives an invalid date.
\<close>

fun getTime :: "jsval option \<Rightarrow> jsnum" where
  "getTime (Some (Str s)) = date_parse s"
| "getTime (Some (Num (Fin q))) =
     (if 8640000000000000 < \<bar>q\<bar> then NaN
      else Fin (of_int (if 0 \<le> q then \<lfloor>q\<rfloor> else \<lceil>q\<rceil>)))"
| "getTime v = NaN"

section \<open>The aggregation: \<^verbatim>\<open>groupedAnalytics\<close>, \<^verbatim>\<open>sortedChartData\<close>\<close>

text \<open>
  \<^verbatim>\<open>interface AnalyticsData { year: number; month: number; category: string;
  totalAmount: number }\<close>, with the year and the month integers.
\<close>

record AnalyticsData =
  year :: int
  month :: int
  category :: string
  totalAmount :: jsnum

text \<open>The key of a record's bucket: \<^verbatim>\<open>`${item.year}-${item.month}`\<close>.\<close>

definition bucket_key :: "int \<Rightarrow> int \<Rightarrow> string" where
  "bucket_key y m = show_int y @ ''-'' @ show_int m"

text \<open>The text of a bucket's month: \<^verbatim>\<open>`${item.year}-${item.month.toString().padStart(2, "0")}`\<close>.\<close>

definition month_text :: "int \<Rightarrow> int \<Rightarrow> string" where
  "month_text y m = show_int y @ ''-'' @ padStart2 (show_int m)"

text \<open>
  The \<^verbatim>\<open>ChartDataItem\<close> made at the first record of a key. Its label is the text
  \<^verbatim>\<open>toLocaleDateString\<close> gives in the locale of the browser.
\<close>

definition new_item :: "AnalyticsData \<Rightarrow> jsobject" where
  "new_item item =
     [(''month'', Str (month_text (year item) (month item))),
      (''year'', Num (Fin (of_int (year item)))),
      (''monthNum'', Num (Fin (of_int (month item)))),
      (''label'', Opaque)]"

text \<open>
  One step of the \<^verbatim>\<open>reduce\<close>. The accumulator is an object keyed by \<open>bucket_key\<close>; such
  a key starts with a digit or a minus sign, so it is never a member the accumulator
  inherits and never an array index, and \<^verbatim>\<open>Object.values\<close> lists the buckets in the
  order they were made.
\<close>

definition group_step :: "(string \<times> jsobject) list \<Rightarrow> AnalyticsData \<Rightarrow> (string \<times> jsobject) list" where
  "group_step acc item =
     (let key = bucket_key (year item) (month item);
          b = (case map_of acc key of None \<Rightarrow> new_item item | Some b \<Rightarrow> b)
      in AList.update key
           (set_prop b (category item)
              (js_plus (or0 (get_prop b (category item))) (totalAmount item)))
           acc)"

definition groupedAnalytics :: "AnalyticsData list \<Rightarrow> (string \<times> jsobject) list" where
  "groupedAnalytics analytics = foldl group_step [] analytics"

text \<open>
  \<^verbatim>\<open>Array.prototype.sort\<close> with a comparator: a stable sort, \<open>x\<close> going after \<open>y\<close> when
  the comparator is positive on \<open>(x, y)\<close>. For a consistent comparator every engine
  returns this list.
\<close>

fun insert_by :: "('a \<Rightarrow> 'a \<Rightarrow> jsnum) \<Rightarrow> 'a \<Rightarrow> 'a list \<Rightarrow> 'a list" where
  "insert_by cmp x [] = [x]"
| "insert_by cmp x (y # ys) = (if js_pos (cmp x y) then y # insert_by cmp x ys else x # y # ys)"

definition sort_by :: "('a \<Rightarrow> 'a \<Rightarrow> jsnum) \<Rightarrow> 'a list \<Rightarrow> 'a list" where
  "sort_by cmp xs = foldr (insert_by cmp) xs []"

definition sortedChartData :: "(string \<times> jsobject) list \<Rightarrow> jsobject list" where
  "sortedChartData grouped =
     sort_by (\<lambda>a b. js_sub (getTime (get_prop a ''month'')) (getTime (get_prop b ''month'')))
       (map snd grouped)"

section \<open>The summary: window, totals, ranking, cards\<close>

datatype timeframe = all | last6Months | last3Months

text \<open>\<^verbatim>\<open>xs.slice(start)\<close>\<close>

definition slice :: "int \<Rightarrow> 'a list \<Rightarrow> 'a list" where
  "slice start xs =
     (let len = int (length xs);
          k = (if start < 0 then max (len + start) 0 else min start len)
      in drop (nat k) xs)"

fun filteredChartData :: "timeframe \<Rightarrow> jsobject list \<Rightarrow> jsobject list" where
  "filteredChartData last3Months sortedData = slice (- 3) sortedData"
| "filteredChartData last6Months sortedData = slice (- 6) sortedData"
| "filteredChartData all sortedData = sortedData"

definition CATEGORY_COLORS :: "(string \<times> string) list" where
  "CATEGORY_COLORS =
     [(''Rental'', ''#8884d8''), (''Groceries'', ''#82ca9d''), (''Entertainment'', ''#ffc658''),
      (''Travel'', ''#ff7300''), (''Others'', ''#413ea0'')]"

text \<open>\<^verbatim>\<open>Object.keys(CATEGORY_COLORS)\<close>\<close>

definition category_keys :: "string list" where
  "category_keys = map fst CATEGORY_COLORS"

text \<open>
  \<^verbatim>\<open>(month[category] as number) || 0\<close>. The cast holds for every bucket the aggregation
  makes (\<open>known_fields_numbers\<close> below); for a property that holds text JavaScript would
  go on concatenating, which is not followed here: the value is \<open>NaN\<close>.
\<close>

fun amount_or0 :: "jsval option \<Rightarrow> jsnum" where
  "amount_or0 None = 0"
| "amount_or0 (Some (Num n)) = (if n = NaN \<or> n = Fin 0 then 0 else n)"
| "amount_or0 (Some (Str s)) = (if s = [] then 0 else NaN)"
| "amount_or0 (Some Opaque) = NaN"

definition totalExpenses :: "jsobject list \<Rightarrow> jsnum" where
  "totalExpenses filtered =
     foldl (\<lambda>tot month.
              tot + foldl (\<lambda>acc category. acc + amount_or0 (get_prop month category))
                      0 category_keys)
       0 filtered"

record CategoryTotal =
  ct_category :: string
  ct_total :: jsnum
  ct_color :: string

definition category_total :: "jsobject list \<Rightarrow> string \<Rightarrow> jsnum" where
  "category_total filtered c =
     foldl (\<lambda>acc month. acc + amount_or0 (get_prop month c)) 0 filtered"

definition categoryTotals :: "jsobject list \<Rightarrow> CategoryTotal list" where
  "categoryTotals filtered =
     sort_by (\<lambda>a b. js_sub (ct_total b) (ct_total a))
       (map (\<lambda>(c, col). \<lparr>ct_category = c, ct_total = category_total filtered c, ct_color = col\<rparr>)
          CATEGORY_COLORS)"

text \<open>
  The share of a category, \<^verbatim>\<open>total / totalExpenses\<close>, and the percentage shown beside it,
  \<^verbatim>\<open>(total / totalExpenses) * 100\<close>, before \<^verbatim>\<open>toFixed(1)\<close> writes it.
\<close>

definition shareOfTotal :: "jsnum \<Rightarrow> jsnum \<Rightarrow> jsnum" where
  "shareOfTotal t grand = js_div t grand"

definition percentOfTotal :: "jsnum \<Rightarrow> jsnum \<Rightarrow> jsnum" where
  "percentOfTotal t grand = js_mul (shareOfTotal t grand) (Fin 100)"

text \<open>
  The data of the pie chart, \<^verbatim>\<open>{ name: category, value: total }\<close> per entry, and the
  percentage \<^verbatim>\<open>CustomPieTooltip\<close> shows for the entry under the pointer,
  \<^verbatim>\<open>(data.value / totalExpenses) * 100\<close>.
\<close>

definition pieChartData :: "jsobject list \<Rightarrow> (string \<times> jsnum) list" where
  "pieChartData filtered = map (\<lambda>e. (ct_category e, ct_total e)) (categoryTotals filtered)"

definition CustomPieTooltip :: "jsobject list \<Rightarrow> string \<times> jsnum \<Rightarrow> jsnum" where
  "CustomPieTooltip filtered data = percentOfTotal (snd data) (totalExpenses filtered)"

text \<open>
  The category breakdown: a row per entry of \<open>categoryTotals\<close> with its total and its
  percentage. It is rendered when the data has loaded and the window is not empty
  (otherwise the spinner or "No data available" stands in its place).
\<close>

definition categoryBreakdown :: "bool \<Rightarrow> jsobject list \<Rightarrow> (string \<times> jsnum \<times> jsnum) list option" where
  "categoryBreakdown isLoading filtered =
     (if isLoading \<or> length filtered = 0 then None
      else Some (map (\<lambda>e. (ct_category e, ct_total e,
                            percentOfTotal (ct_total e) (totalExpenses filtered)))
                   (categoryTotals filtered)))"

text \<open>
  The summary cards, rendered under \<^verbatim>\<open>!isLoading && filteredChartData.length > 0\<close>: the
  average \<^verbatim>\<open>totalExpenses / filteredChartData.length\<close> (before it is written with no
  fraction digits), the highest category \<^verbatim>\<open>categoryTotals[0]?.category || "None"\<close> and the
  total.
\<close>

record SummaryCards =
  averageMonthly :: jsnum
  highestCategory :: string
  totalCard :: jsnum

definition highest_category :: "CategoryTotal list \<Rightarrow> string" where
  "highest_category cts =
     (case cts of
        [] \<Rightarrow> ''None''
      | e # _ \<Rightarrow> if ct_category e = [] then ''None'' else ct_category e)"

definition summaryCards :: "bool \<Rightarrow> jsobject list \<Rightarrow> SummaryCards option" where
  "summaryCards isLoading filtered =
     (if \<not> isLoading \<and> 0 < length filtered
      then Some \<lparr>averageMonthly = js_div (totalExpenses filtered) (Fin (of_nat (length filtered))),
                 highestCategory = highest_category (categoryTotals filtered),
                 totalCard = totalExpenses filtered\<rparr>
      else None)"

text \<open>The whole pipeline, from the fetched records and the selected timeframe to the window.\<close>

definition chart_window :: "timeframe \<Rightarrow> AnalyticsData list \<Rightarrow> jsobject list" where
  "chart_window tf analytics = filteredChartData tf (sortedChartData (groupedAnalytics analytics))"

section \<open>Notions used to state the properties\<close>

text \<open>\<^verbatim>\<open>Number.isFinite\<close>\<close>

fun isFinite :: "jsnum \<Rightarrow> bool" where
  "isFinite (Fin a) = True"
| "isFinite n = False"

text \<open>The value of a finite number.\<close>

fun the_fin :: "jsnum \<Rightarrow> rat" where
  "the_fin (Fin q) = q"
| "the_fin n = 0"

text \<open>The properties a new bucket holds, besides the categories.\<close>

definition item_fields :: "string list" where
  "item_fields = [''month'', ''year'', ''monthNum'', ''label'']"

text \<open>
  A category name is plain when it is neither a field of the bucket nor a member the
  bucket inherits, so that reading and writing it touches only that category's amount.
\<close>

definition plain_category :: "string \<Rightarrow> bool" where
  "plain_category c = (c \<notin> set item_fields \<and> c \<notin> set Object_prototype_keys)"

text \<open>The fields of a bucket that tell its year and month.\<close>

definition date_fields :: "string list" where
  "date_fields = [''month'', ''year'', ''monthNum'']"

text \<open>
  The property \<open>p\<close> of the bucket keyed \<open>k\<close>, if the accumulator has that bucket.
\<close>

definition field_of :: "(string \<times> jsobject) list \<Rightarrow> string \<Rightarrow> string \<Rightarrow> jsval option" where
  "field_of acc k p = (case map_of acc k of None \<Rightarrow> None | Some b \<Rightarrow> get_prop b p)"

text \<open>How the records of one key and one category build that cell, one after the other.\<close>

definition cell_step :: "string \<Rightarrow> string \<Rightarrow> jsval option \<Rightarrow> AnalyticsData \<Rightarrow> jsval option" where
  "cell_step k c v x =
     (if bucket_key (year x) (month x) = k \<and> category x = c
      then Some (js_plus (or0 v) (totalAmount x)) else v)"

text \<open>The records of a key and a category.\<close>

definition records_of :: "string \<Rightarrow> string \<Rightarrow> AnalyticsData list \<Rightarrow> AnalyticsData list" where
  "records_of k c xs = filter (\<lambda>x. bucket_key (year x) (month x) = k \<and> category x = c) xs"

text \<open>
  The amount the summary reads for a category in the bucket of a key (0 when there is
  no such bucket or the bucket has no such property).
\<close>

definition cell_amount :: "AnalyticsData list \<Rightarrow> string \<Rightarrow> string \<Rightarrow> jsnum" where
  "cell_amount xs k c = amount_or0 (field_of (groupedAnalytics xs) k c)"

text \<open>The (year, month) pair of a record.\<close>

definition year_month_of :: "AnalyticsData \<Rightarrow> int \<times> int" where
  "year_month_of x = (year x, month x)"

text \<open>The year and the month a bucket shows.\<close>

definition year_month :: "jsobject \<Rightarrow> (rat \<times> rat) option" where
  "year_month b =
     (case (get_prop b ''year'', get_prop b ''monthNum'') of
        (Some (Num (Fin y)), Some (Num (Fin m))) \<Rightarrow> Some (y, m)
      | _ \<Rightarrow> None)"

text \<open>
  Bucket \<open>a\<close> is of an earlier month than bucket \<open>b\<close>: by the year, then by the month.
\<close>

definition earlier :: "jsobject \<Rightarrow> jsobject \<Rightarrow> bool" where
  "earlier a b =
     (case (year_month a, year_month b) of
        (Some (y, m), Some (y', m')) \<Rightarrow> y < y' \<or> (y = y' \<and> m < m')
      | _ \<Rightarrow> False)"

text \<open>The bucket of a year and a month, with the fields it was made with.\<close>

definition bucket_of :: "int \<Rightarrow> int \<Rightarrow> jsobject \<Rightarrow> bool" where
  "bucket_of y m b \<longleftrightarrow>
     get_prop b ''month'' = Some (Str (month_text y m))
     \<and> get_prop b ''year'' = Some (Num (Fin (of_int y)))
     \<and> get_prop b ''monthNum'' = Some (Num (Fin (of_int m)))"

text \<open>The day a month starts on, counted from the first of January 1970.\<close>

definition month_days :: "int \<Rightarrow> int \<Rightarrow> int" where
  "month_days y m = DayFromYear y + DayWithinYear y m"

text \<open>
  The time \<^verbatim>\<open>sortedChartData\<close> reads off a bucket, when it is a number.
\<close>

definition time_of :: "jsobject \<Rightarrow> rat" where
  "time_of b = (case getTime (get_prop b ''month'') of Fin t \<Rightarrow> t | _ \<Rightarrow> 0)"

text \<open>
  A year of four digits and a month of the calendar: the pairs whose month text
  \<^verbatim>\<open>YYYY-MM\<close> is in the date-time string format.
\<close>

definition valid_year_month :: "int \<Rightarrow> int \<Rightarrow> bool" where
  "valid_year_month y m \<longleftrightarrow> 1000 \<le> y \<and> y \<le> 9999 \<and> 1 \<le> m \<and> m \<le> 12"

text \<open>Records of such years and months that leave the date fields of their buckets alone.\<close>

definition valid_dates :: "AnalyticsData list \<Rightarrow> bool" where
  "valid_dates xs = list_all (\<lambda>x. valid_year_month (year x) (month x)
                                  \<and> category x \<notin> set date_fields) xs"

text \<open>The place of a category in \<^verbatim>\<open>Object.keys(CATEGORY_COLORS)\<close>.\<close>

definition position :: "string \<Rightarrow> nat" where
  "position c = length (takeWhile (\<lambda>k. k \<noteq> c) category_keys)"

text \<open>
  Entry \<open>a\<close> ranks before entry \<open>b\<close>: its total is greater, or the totals are equal and
  its category comes first among the keys.
\<close>

definition ranks_before :: "CategoryTotal \<Rightarrow> CategoryTotal \<Rightarrow> bool" where
  "ranks_before a b =
     (case (ct_total a, ct_total b) of
        (Fin s, Fin t) \<Rightarrow> t < s \<or> (t = s \<and> position (ct_category a) < position (ct_category b))
      | _ \<Rightarrow> False)"

text \<open>Two buckets that agree on every property but \<open>p\<close>.\<close>

definition agree_but :: "string \<Rightarrow> jsobject \<Rightarrow> jsobject \<Rightarrow> bool" where
  "agree_but p a b = (\<forall>q. q \<noteq> p \<longrightarrow> get_prop a q = get_prop b q)"

text \<open>
  Two records of the same year, month and category, with the same amount unless the
  category is \<open>p\<close>.
\<close>

definition same_but_amount :: "string \<Rightarrow> AnalyticsData \<Rightarrow> AnalyticsData \<Rightarrow> bool" where
  "same_but_amount p x y =
     (year x = year y \<and> month x = month y \<and> category x = category y
      \<and> (category x = p \<or> totalAmount x = totalAmount y))"

section \<open>Inputs the properties are tried on\<close>

text \<open>
  The first scenario of the specification, and a fourth record that comes back to
  Groceries in January 2024.
\<close>

definition scenario :: "AnalyticsData list" where
  "scenario =
     [\<lparr>year = 2024, month = 1, category = ''Groceries'', totalAmount = Fin 100\<rparr>,
      \<lparr>year = 2024, month = 1, category = ''Travel'', totalAmount = Fin 50\<rparr>,
      \<lparr>year = 2024, month = 2, category = ''Groceries'', totalAmount = Fin 200\<rparr>,
      \<lparr>year = 2024, month = 1, category = ''Groceries'', totalAmount = Fin 25\<rparr>]"

text \<open>Records that do not come in the order of their months.\<close>

definition out_of_order :: "AnalyticsData list" where
  "out_of_order =
     [\<lparr>year = 2024, month = 2, category = ''Groceries'', totalAmount = Fin 200\<rparr>,
      \<lparr>year = 2023, month = 12, category = ''Travel'', totalAmount = Fin 50\<rparr>,
      \<lparr>year = 2024, month = 1, category = ''Groceries'', totalAmount = Fin 100\<rparr>,
      \<lparr>year = 2023, month = 12, category = ''Rental'', totalAmount = Fin 900\<rparr>]"

text \<open>A record whose category has the name of a field of its bucket.\<close>

definition year_clash :: "AnalyticsData list" where
  "year_clash =
     [\<lparr>year = 2024, month = 1, category = ''year'', totalAmount = Fin 5\<rparr>,
      \<lparr>year = 2025, month = 1, category = ''Rental'', totalAmount = Fin 1\<rparr>]"

text \<open>
  One expense of the category Education, which the entry form offers and the analytics
  do not know.
\<close>

definition education_only :: "AnalyticsData list" where
  "education_only = [\<lparr>year = 2024, month = 1, category = ''Education'', totalAmount = Fin 500\<rparr>]"

text \<open>Groceries in January, Education in March, Travel in February.\<close>

definition january :: "AnalyticsData list" where
  "january = [\<lparr>year = 2024, month = 1, category = ''Groceries'', totalAmount = Fin 100\<rparr>]"

definition education_march :: AnalyticsData where
  "education_march = \<lparr>year = 2024, month = 3, category = ''Education'', totalAmount = Fin 500\<rparr>"

definition february :: "AnalyticsData list" where
  "february = [\<lparr>year = 2024, month = 2, category = ''Travel'', totalAmount = Fin 50\<rparr>]"

text \<open>A month that is not of the calendar, with a negative amount.\<close>

definition malformed :: "AnalyticsData list" where
  "malformed =
     [\<lparr>year = 2024, month = 13, category = ''Rental'', totalAmount = Fin (- 50)\<rparr>,
      \<lparr>year = 2024, month = 1, category = ''Rental'', totalAmount = Fin 20\<rparr>]"

text \<open>An amount that is not finite.\<close>

definition infinite_amount :: "AnalyticsData list" where
  "infinite_amount = [\<lparr>year = 2024, month = 1, category = ''Rental'', totalAmount = PosInf\<rparr>]"

section \<open>Windowing\<close>

lemma slice_neg_drop: "0 < n \<Longrightarrow> slice (- int n) xs = drop (length xs - n) xs"
proof -
  assume "0 < n"
  moreover have "nat (max (int (length xs) - int n) 0) = length xs - n"
    by simp
  ultimately show ?thesis
    by (simp add: slice_def Let_def)
qed

lemma slice_3: "slice (- 3) xs = drop (length xs - 3) xs"
  using slice_neg_drop [of 3 xs] by simp

lemma slice_6: "slice (- 6) xs = drop (length xs - 6) xs"
  using slice_neg_drop [of 6 xs] by simp

text \<open>
  C3. The timeframe \<open>all\<close> leaves the series as it is; \<open>last3Months\<close> and \<open>last6Months\<close>
  return the trailing slice of the series of length \<open>min n (length series)\<close>, \<open>n\<close> being 3
  or 6: the last \<open>n\<close> buckets the series has, a suffix of it, with nothing added and
  nothing chosen by date.
\<close>

theorem window_is_trailing_slice:
  "filteredChartData all series = series
   \<and> filteredChartData last3Months series = drop (length series - 3) series
   \<and> length (filteredChartData last3Months series) = min 3 (length series)
   \<and> suffix (filteredChartData last3Months series) series
   \<and> filteredChartData last6Months series = drop (length series - 6) series
   \<and> length (filteredChartData last6Months series) = min 6 (length series)
   \<and> suffix (filteredChartData last6Months series) series"
  by (simp add: slice_3 slice_6 suffix_drop min_def)

section \<open>Buckets and their cells\<close>

lemma get_prop_set_prop:
  "get_prop (set_prop b p v) q = (if p = q \<and> p \<noteq> ''__proto__'' then Some v else get_prop b q)"
  by (simp add: get_prop_def set_prop_def update_conv')

lemma known_plain: "c \<in> set category_keys \<Longrightarrow> plain_category c"
  by (auto simp: category_keys_def CATEGORY_COLORS_def plain_category_def item_fields_def
      Object_prototype_keys_def)

lemma plain_not_proto: "plain_category c \<Longrightarrow> c \<noteq> ''__proto__''"
  by (auto simp: plain_category_def Object_prototype_keys_def)

lemma get_prop_new_item_plain: "plain_category c \<Longrightarrow> get_prop (new_item x) c = None"
  by (auto simp: plain_category_def get_prop_def new_item_def item_fields_def)

lemma field_of_step:
  assumes "plain_category c"
  shows "field_of (group_step acc x) k c =
          (if bucket_key (year x) (month x) = k \<and> category x = c
           then Some (js_plus (or0 (field_of acc k c)) (totalAmount x))
           else field_of acc k c)"
  using assms plain_not_proto [OF assms]
  by (auto simp: field_of_def group_step_def Let_def update_conv' get_prop_set_prop
      get_prop_new_item_plain split: option.splits)

lemma field_of_foldl:
  "plain_category c \<Longrightarrow>
   field_of (foldl group_step acc xs) k c = foldl (cell_step k c) (field_of acc k c) xs"
  by (induction xs arbitrary: acc) (simp_all add: field_of_step cell_step_def)

lemma field_of_grouped:
  "plain_category c \<Longrightarrow> field_of (groupedAnalytics xs) k c = foldl (cell_step k c) None xs"
  by (simp add: groupedAnalytics_def field_of_foldl) (simp add: field_of_def)

lemma isFinite_sum_list: "\<forall>x\<in>set ns. isFinite x \<Longrightarrow> \<exists>q. sum_list ns = Fin q"
proof (induction ns)
  case Nil
  then show ?case by (simp add: zero_jsnum_def)
next
  case (Cons n ns)
  then obtain q where "sum_list ns = Fin q" by auto
  moreover obtain a where "n = Fin a" using Cons.prems by (cases n) auto
  ultimately show ?case by simp
qed

lemma cell_fold_Some:
  "\<forall>x\<in>set xs. isFinite (totalAmount x) \<Longrightarrow>
   foldl (cell_step k c) (Some (Num (Fin s))) xs
     = Some (Num (Fin s + sum_list (map totalAmount (records_of k c xs))))"
proof (induction xs arbitrary: s)
  case Nil
  then show ?case by (simp add: records_of_def zero_jsnum_def)
next
  case (Cons x xs)
  obtain a where a: "totalAmount x = Fin a" using Cons.prems by (cases "totalAmount x") auto
  show ?case
  proof (cases "bucket_key (year x) (month x) = k \<and> category x = c")
    case True
    then have "foldl (cell_step k c) (Some (Num (Fin s))) (x # xs)
        = foldl (cell_step k c) (Some (Num (Fin (s + a)))) xs"
      by (simp add: cell_step_def a)
    also have "\<dots> = Some (Num (Fin (s + a) + sum_list (map totalAmount (records_of k c xs))))"
      using Cons by simp
    finally show ?thesis using True by (simp add: records_of_def a add.assoc [symmetric])
  next
    case False
    then show ?thesis using Cons by (auto simp: cell_step_def records_of_def)
  qed
qed

lemma cell_fold_None:
  "\<forall>x\<in>set xs. isFinite (totalAmount x) \<Longrightarrow>
   foldl (cell_step k c) None xs
     = (if records_of k c xs = [] then None
        else Some (Num (sum_list (map totalAmount (records_of k c xs)))))"
proof (induction xs)
  case Nil
  then show ?case by (simp add: records_of_def)
next
  case (Cons x xs)
  obtain a where a: "totalAmount x = Fin a" using Cons.prems by (cases "totalAmount x") auto
  show ?case
  proof (cases "bucket_key (year x) (month x) = k \<and> category x = c")
    case True
    have "foldl (cell_step k c) None (x # xs) = foldl (cell_step k c) (Some (Num (Fin a))) xs"
      using True by (simp add: cell_step_def a zero_jsnum_def)
    then show ?thesis
      using True Cons.prems cell_fold_Some [of xs k c a] by (simp add: records_of_def a)
  next
    case False
    then show ?thesis using Cons by (auto simp: cell_step_def records_of_def)
  qed
qed

lemma bucket_lookup:
  "map_of (group_step acc x) k =
     (if bucket_key (year x) (month x) = k
      then Some (set_prop (case map_of acc k of None \<Rightarrow> new_item x | Some b \<Rightarrow> b) (category x)
                  (js_plus (or0 (get_prop (case map_of acc k of None \<Rightarrow> new_item x | Some b \<Rightarrow> b)
                                  (category x))) (totalAmount x)))
      else map_of acc k)"
  by (simp add: group_step_def Let_def update_conv')

lemma grouped_snoc: "groupedAnalytics (xs @ [x]) = group_step (groupedAnalytics xs) x"
  by (simp add: groupedAnalytics_def)

subsection \<open>The keys of the buckets\<close>

lemma keys_step:
  "map fst (group_step acc x) =
     (if bucket_key (year x) (month x) \<in> set (map fst acc) then map fst acc
      else map fst acc @ [bucket_key (year x) (month x)])"
  by (simp add: group_step_def Let_def update_keys)

lemma keys_foldl:
  "distinct (map fst acc) \<Longrightarrow>
   distinct (map fst (foldl group_step acc xs))
   \<and> set (map fst (foldl group_step acc xs))
       = set (map fst acc) \<union> (\<lambda>x. bucket_key (year x) (month x)) ` set xs"
proof (induction xs arbitrary: acc)
  case Nil
  then show ?case by simp
next
  case (Cons x xs)
  have "distinct (map fst (group_step acc x))"
    using Cons.prems by (simp add: keys_step)
  from Cons.IH [OF this] show ?case
    by (auto simp: keys_step split: if_splits)
qed

lemma keys_grouped:
  "distinct (map fst (groupedAnalytics xs))"
  "set (map fst (groupedAnalytics xs)) = (\<lambda>x. bucket_key (year x) (month x)) ` set xs"
  using keys_foldl [of "[]" xs] by (simp_all add: groupedAnalytics_def)

lemma grouped_mem_iff:
  "(k, b) \<in> set (groupedAnalytics xs) \<longleftrightarrow> map_of (groupedAnalytics xs) k = Some b"
  using keys_grouped(1) [of xs] by simp

subsection \<open>The text of an integer, and why keys tell (year, month) pairs apart\<close>

lemma is_digit_digit_char: "d < 10 \<Longrightarrow> is_digit (digit_char d)"
  by (simp add: is_digit_def digit_char_def)

lemma digit_val_digit_char: "d < 10 \<Longrightarrow> digit_val (digit_char d) = d"
  by (simp add: digit_val_def digit_char_def)

lemma minus_not_digit: "\<not> is_digit CHR ''-''"
  by (simp add: is_digit_def)

lemma show_nat_digits: "list_all is_digit (show_nat n)"
proof (induction n rule: show_nat.induct)
  case (1 n)
  show ?case
  proof (cases "n < 10")
    case True
    then show ?thesis by (subst show_nat.simps) (simp add: is_digit_digit_char)
  next
    case False
    then show ?thesis using 1 by (subst show_nat.simps) (simp add: is_digit_digit_char)
  qed
qed

lemma show_nat_not_Nil: "show_nat n \<noteq> []"
  by (subst show_nat.simps) simp

lemma read_show_nat: "foldl (\<lambda>a c. 10 * a + digit_val c) 0 (show_nat n) = n"
proof (induction n rule: show_nat.induct)
  case (1 n)
  show ?case
  proof (cases "n < 10")
    case True
    then show ?thesis by (subst show_nat.simps) (simp add: digit_val_digit_char)
  next
    case False
    then show ?thesis using 1 by (subst show_nat.simps) (simp add: digit_val_digit_char)
  qed
qed

lemma show_nat_inj: "show_nat a = show_nat b \<Longrightarrow> a = b"
  by (metis read_show_nat)

lemma show_nat_hd: "\<exists>c cs. show_nat n = c # cs \<and> is_digit c \<and> list_all is_digit cs"
proof -
  obtain c cs where e: "show_nat n = c # cs"
    using show_nat_not_Nil by (meson neq_Nil_conv)
  have "list_all is_digit (c # cs)"
    using show_nat_digits [of n] unfolding e .
  then show ?thesis using e by simp
qed

text \<open>The text of an integer is a first character, a digit or the sign, and digits.\<close>

lemma show_int_shape: "\<exists>c cs. show_int i = c # cs \<and> list_all is_digit cs"
proof (cases "i < 0")
  case True
  then show ?thesis by (simp add: show_int_def show_nat_digits)
next
  case False
  then show ?thesis using show_nat_hd [of "nat i"] by (auto simp: show_int_def)
qed

lemma show_int_inj: "show_int a = show_int b \<Longrightarrow> a = b"
proof -
  assume eq: "show_int a = show_int b"
  have neg: "show_nat n \<noteq> CHR ''-'' # cs" for n cs
    using show_nat_hd [of n] minus_not_digit by auto
  consider "a < 0" "b < 0" | "a < 0" "\<not> b < 0" | "\<not> a < 0" "b < 0" | "\<not> a < 0" "\<not> b < 0"
    by blast
  then show ?thesis
  proof cases
    case 1
    then have "nat (- a) = nat (- b)" using eq by (simp add: show_int_def show_nat_inj)
    then show ?thesis using 1 by simp
  next
    case 2
    then show ?thesis using eq neg [of "nat b" "show_nat (nat (- a))"] by (simp add: show_int_def)
  next
    case 3
    then show ?thesis using eq neg [of "nat a" "show_nat (nat (- b))"] by (simp add: show_int_def)
  next
    case 4
    then have "nat a = nat b" using eq by (simp add: show_int_def show_nat_inj)
    then show ?thesis using 4 by simp
  qed
qed

lemma split_at_minus:
  assumes "list_all is_digit ds" "list_all is_digit es" "ds @ CHR ''-'' # r = es @ CHR ''-'' # t"
  shows "ds = es \<and> r = t"
proof -
  have "takeWhile is_digit (ds @ CHR ''-'' # r) = ds" "takeWhile is_digit (es @ CHR ''-'' # t) = es"
    using assms(1,2) minus_not_digit by (simp_all add: takeWhile_tail list_all_iff)
  then have "ds = es" using assms(3) by simp
  then show ?thesis using assms(3) by simp
qed

lemma bucket_key_inj: "bucket_key y m = bucket_key y' m' \<Longrightarrow> y = y' \<and> m = m'"
proof -
  assume eq: "bucket_key y m = bucket_key y' m'"
  obtain c ds where a: "show_int y = c # ds" "list_all is_digit ds"
    using show_int_shape by blast
  obtain c' es where b: "show_int y' = c' # es" "list_all is_digit es"
    using show_int_shape by blast
  from eq have "c = c'" "ds @ CHR ''-'' # show_int m = es @ CHR ''-'' # show_int m'"
    by (simp_all add: bucket_key_def a b)
  with split_at_minus [OF a(2) b(2)] have "show_int y = show_int y'" "show_int m = show_int m'"
    by (simp_all add: a b)
  then show ?thesis by (simp add: show_int_inj)
qed

lemma bucket_key_eq_iff: "bucket_key y m = bucket_key y' m' \<longleftrightarrow> y = y' \<and> m = m'"
  using bucket_key_inj by blast

lemma card_keys: "card ((\<lambda>x. bucket_key (year x) (month x)) ` set xs) = card (year_month_of ` set xs)"
proof -
  have "(\<lambda>x. bucket_key (year x) (month x)) ` set xs = (\<lambda>(y, m). bucket_key y m) ` (year_month_of ` set xs)"
    by (auto simp: year_month_of_def image_iff)
  moreover have "inj_on (\<lambda>(y, m). bucket_key y m) (year_month_of ` set xs)"
    by (auto simp: inj_on_def bucket_key_eq_iff year_month_of_def)
  ultimately show ?thesis by (simp add: card_image)
qed

lemma length_grouped: "length (groupedAnalytics xs) = card (year_month_of ` set xs)"
proof -
  have "length (groupedAnalytics xs) = length (map fst (groupedAnalytics xs))" by simp
  also have "\<dots> = card (set (map fst (groupedAnalytics xs)))"
    using keys_grouped(1) [of xs] by (simp only: distinct_card)
  finally show ?thesis by (simp only: keys_grouped(2) card_keys)
qed

lemma records_of_year_month:
  "records_of (bucket_key y m) c xs = filter (\<lambda>x. year x = y \<and> month x = m \<and> category x = c) xs"
  by (simp add: records_of_def bucket_key_eq_iff conj_assoc)

subsection \<open>Grouping\<close>

text \<open>
  C1, for plain categories. For every collection of records with finite amounts, the
  aggregation makes exactly one bucket for each distinct (year, month) pair of the
  input: as many buckets as pairs, under distinct keys, one for a pair exactly when a
  record has it. In the bucket of a year and a month, the amount stored for a plain
  category (a name that is neither a field of the bucket nor a member it inherits) is
  the sum of \<open>totalAmount\<close> over the records of that year, month and category, all of
  them added up; when there is no such record, the bucket has no such property.
\<close>

theorem grouping_sums_plain_categories:
  assumes "\<forall>x\<in>set analytics. isFinite (totalAmount x)"
  shows "length (groupedAnalytics analytics) = card (year_month_of ` set analytics)
    \<and> distinct (map fst (groupedAnalytics analytics))
    \<and> (\<forall>y m. (\<exists>b. (bucket_key y m, b) \<in> set (groupedAnalytics analytics))
              \<longleftrightarrow> (\<exists>x\<in>set analytics. year x = y \<and> month x = m))
    \<and> (\<forall>y m b c. (bucket_key y m, b) \<in> set (groupedAnalytics analytics) \<longrightarrow> plain_category c \<longrightarrow>
          get_prop b c =
            (let records = filter (\<lambda>x. year x = y \<and> month x = m \<and> category x = c) analytics
             in if records = [] then None else Some (Num (sum_list (map totalAmount records)))))"
proof (intro conjI allI impI)
  show "length (groupedAnalytics analytics) = card (year_month_of ` set analytics)"
    by (rule length_grouped)
  show "distinct (map fst (groupedAnalytics analytics))"
    by (rule keys_grouped)
next
  fix y m
  have ks: "fst ` set (groupedAnalytics analytics) = (\<lambda>x. bucket_key (year x) (month x)) ` set analytics"
    using keys_grouped(2) [of analytics] by simp
  have "(\<exists>b. (bucket_key y m, b) \<in> set (groupedAnalytics analytics))
      \<longleftrightarrow> bucket_key y m \<in> fst ` set (groupedAnalytics analytics)"
    by force
  also have "\<dots> \<longleftrightarrow> (\<exists>x\<in>set analytics. year x = y \<and> month x = m)"
    unfolding ks by (auto simp: bucket_key_eq_iff)
  finally show "(\<exists>b. (bucket_key y m, b) \<in> set (groupedAnalytics analytics))
      \<longleftrightarrow> (\<exists>x\<in>set analytics. year x = y \<and> month x = m)" .
next
  fix y m b c
  assume mem: "(bucket_key y m, b) \<in> set (groupedAnalytics analytics)" and c: "plain_category c"
  from mem have "get_prop b c = field_of (groupedAnalytics analytics) (bucket_key y m) c"
    by (simp add: grouped_mem_iff field_of_def)
  also have "\<dots> = foldl (cell_step (bucket_key y m) c) None analytics"
    by (rule field_of_grouped [OF c])
  also have "\<dots> = (if records_of (bucket_key y m) c analytics = [] then None
      else Some (Num (sum_list (map totalAmount (records_of (bucket_key y m) c analytics)))))"
    by (rule cell_fold_None [OF assms])
  finally show "get_prop b c =
            (let records = filter (\<lambda>x. year x = y \<and> month x = m \<and> category x = c) analytics
             in if records = [] then None else Some (Num (sum_list (map totalAmount records))))"
    unfolding records_of_year_month Let_def .
qed

lemma scenario_grouped:
  "groupedAnalytics scenario =
  [(''2024-1'', [(''month'', Str ''2024-01''), (''year'', Num (Fin 2024)), (''monthNum'', Num (Fin 1)),
      (''label'', Opaque), (''Groceries'', Num (Fin 125)), (''Travel'', Num (Fin 50))]),
   (''2024-2'', [(''month'', Str ''2024-02''), (''year'', Num (Fin 2024)), (''monthNum'', Num (Fin 2)),
      (''label'', Opaque), (''Groceries'', Num (Fin 200))])]"
  by code_simp

text \<open>
  The scenario of the specification, with a second record for Groceries in January: two
  buckets, and 100 + 25 for Groceries in the first.
\<close>

theorem grouping_sums_witness:
  "list_all (\<lambda>x. isFinite (totalAmount x)) scenario
   \<and> length (groupedAnalytics scenario) = 2
   \<and> get_prop (snd (hd (groupedAnalytics scenario))) ''Groceries'' = Some (Num (Fin 125))"
proof -
  have fin: "\<forall>x\<in>set scenario. isFinite (totalAmount x)"
    by (simp add: scenario_def)
  note inst = grouping_sums_plain_categories [OF fin]
  have mem: "(bucket_key 2024 1, snd (hd (groupedAnalytics scenario))) \<in> set (groupedAnalytics scenario)"
    unfolding scenario_grouped by code_simp
  have pl: "plain_category ''Groceries''"
    by (simp add: plain_category_def item_fields_def Object_prototype_keys_def)
  have "year_month_of ` set scenario = {(2024, 1), (2024, 2)}"
    by (auto simp: scenario_def year_month_of_def)
  then have "card (year_month_of ` set scenario) = 2"
    by simp
  moreover have "get_prop (snd (hd (groupedAnalytics scenario))) ''Groceries'' = Some (Num (Fin 125))"
    using inst mem pl by (simp add: Let_def scenario_def)
  ultimately show ?thesis using inst fin by (simp add: list_all_iff)
qed

text \<open>
  For the category \<open>year\<close> the sum is not what is stored: the amount 5 of the record is
  added to the year the bucket holds, and the property reads 2029.
\<close>

theorem grouping_sums_counterexample:
  "groupedAnalytics [\<lparr>year = 2024, month = 1, category = ''year'', totalAmount = Fin 5\<rparr>]
     = [(''2024-1'', [(''month'', Str ''2024-01''), (''year'', Num (Fin 2029)),
                      (''monthNum'', Num (Fin 1)), (''label'', Opaque)])]
   \<and> sum_list (map totalAmount
        (filter (\<lambda>x. year x = 2024 \<and> month x = 1 \<and> category x = ''year'')
           [\<lparr>year = 2024, month = 1, category = ''year'', totalAmount = Fin 5\<rparr>])) = Fin 5"
  by code_simp

section \<open>Chronological order\<close>

subsection \<open>The time of a month\<close>

lemma show_nat_lt10: "n < 10 \<Longrightarrow> show_nat n = [digit_char n]"
  by (subst show_nat.simps) simp

lemma show_nat_ge10: "10 \<le> n \<Longrightarrow> show_nat n = show_nat (n div 10) @ [digit_char (n mod 10)]"
  by (subst show_nat.simps) simp

lemma show_nat_4: 
  assumes "1000 \<le> n" "n < 10000"
  shows "show_nat n = [digit_char (n div 10 div 10 div 10), digit_char (n div 10 div 10 mod 10),
                       digit_char (n div 10 mod 10), digit_char (n mod 10)]"
proof -
  have a: "10 \<le> n" "10 \<le> n div 10" "10 \<le> n div 10 div 10" "n div 10 div 10 div 10 < 10"
    using assms by simp_all
  show ?thesis
    by (simp add: show_nat_ge10 [OF a(1)] show_nat_ge10 [OF a(2)] show_nat_ge10 [OF a(3)]
        show_nat_lt10 [OF a(4)])
qed

lemma show_nat_2:
  assumes "10 \<le> n" "n < 100"
  shows "show_nat n = [digit_char (n div 10), digit_char (n mod 10)]"
proof -
  have "n div 10 < 10" using assms by simp
  then show ?thesis by (simp add: show_nat_ge10 [OF assms(1)] show_nat_lt10)
qed

lemma digits_val_4:
  assumes "1000 \<le> n" "n < 10000"
  shows "digits_val (show_nat n) = int n" "list_all is_digit (show_nat n)" "length (show_nat n) = 4"
proof -
  show "digits_val (show_nat n) = int n" by (simp add: digits_val_def read_show_nat)
  show "list_all is_digit (show_nat n)" by (rule show_nat_digits)
  show "length (show_nat n) = 4" by (simp add: show_nat_4 [OF assms])
qed

lemma month_text_parse:
  assumes "1000 \<le> y" "y \<le> 9999" "1 \<le> m" "m \<le> 12"
  shows "date_parse (month_text y m) = month_time y m"
proof -
  let ?n = "nat y"
  have n: "1000 \<le> ?n" "?n < 10000" using assms by simp_all
  obtain y1 y2 y3 y4 where ys: "show_nat ?n = [y1, y2, y3, y4]"
    using show_nat_4 [OF n] by simp
  have yv: "digits_val [y1, y2, y3, y4] = y" "list_all is_digit [y1, y2, y3, y4]"
    using digits_val_4 [OF n] assms unfolding ys by simp_all
  have "\<exists>m1 m2. padStart2 (show_int m) = [m1, m2] \<and> is_digit m1 \<and> is_digit m2 \<and> digits_val [m1, m2] = m"
  proof (cases "m < 10")
    case True
    then have "show_int m = [digit_char (nat m)]" using assms by (simp add: show_int_def show_nat_lt10)
    moreover have "is_digit (digit_char (nat m))" "digit_val (digit_char (nat m)) = nat m"
      using True assms by (simp_all add: is_digit_digit_char digit_val_digit_char)
    moreover have "is_digit CHR ''0''" "digit_val CHR ''0'' = 0"
      by (simp_all add: is_digit_def digit_val_def)
    ultimately show ?thesis using assms by (simp add: padStart2_def digits_val_def)
  next
    case False
    then have k: "10 \<le> nat m" "nat m < 100" using assms by simp_all
    have "show_int m = show_nat (nat m)" using assms by (simp add: show_int_def)
    moreover have "digits_val (show_nat (nat m)) = int (nat m)" "list_all is_digit (show_nat (nat m))"
      by (simp_all add: digits_val_def read_show_nat show_nat_digits)
    ultimately show ?thesis using show_nat_2 [OF k] assms by (simp add: padStart2_def)
  qed
  then obtain m1 m2 where ms: "padStart2 (show_int m) = [m1, m2]" "is_digit m1" "is_digit m2"
      "digits_val [m1, m2] = m" by blast
  have "show_int y = [y1, y2, y3, y4]"
    using assms ys by (simp add: show_int_def)
  then have "month_text y m = [y1, y2, y3, y4, CHR ''-'', m1, m2]"
    by (simp add: month_text_def ms)
  then show ?thesis using yv ms by simp
qed

lemma div_succ:
  fixes x k :: int
  assumes "0 < k"
  shows "(x + 1) div k = x div k + (if (x + 1) mod k = 0 then 1 else 0)"
proof -
  define q r where "q = x div k" and "r = x mod k"
  have e: "x = k * q + r" and r: "0 \<le> r" "r < k"
    using assms by (simp_all add: q_def r_def)
  show ?thesis
  proof (cases "r + 1 = k")
    case True
    then have "x + 1 = k * (q + 1) + 0"
      using e by (simp add: algebra_simps)
    then have "(x + 1) div k = q + 1" "(x + 1) mod k = 0"
      using assms int_div_pos_eq [of "x + 1" k "q + 1" 0] int_mod_pos_eq [of "x + 1" k "q + 1" 0]
      by simp_all
    then show ?thesis by (simp add: q_def)
  next
    case False
    then have r': "0 \<le> r + 1" "r + 1 < k" using r by simp_all
    have "x + 1 = k * q + (r + 1)" using e by simp
    then have "(x + 1) div k = q" "(x + 1) mod k = r + 1"
      using r' int_div_pos_eq [of "x + 1" k q "r + 1"] int_mod_pos_eq [of "x + 1" k q "r + 1"]
      by simp_all
    then show ?thesis using r by (simp add: q_def)
  qed
qed

lemma century_leap: "((y::int) - 1900) mod 100 = 0 \<Longrightarrow> (y - 1968) mod 4 = 0"
proof -
  assume "(y - 1900) mod 100 = 0"
  then have "100 dvd (y - 1900)" by (simp add: dvd_eq_mod_eq_0)
  then have "4 dvd (y - 1900)" by (rule dvd_trans [rotated]) simp
  then have "4 dvd (y - 1900 - 68)" by (rule dvd_diff) simp
  then show ?thesis by (simp add: dvd_eq_mod_eq_0)
qed

lemma DayFromYear_next: "DayFromYear y + 365 \<le> DayFromYear (y + 1)"
proof -
  have a: "(y + 1 - 1969) div 4 = (y - 1969) div 4 + (if (y - 1968) mod 4 = 0 then 1 else 0)"
    using div_succ [of 4 "y - 1969"] by (simp add: algebra_simps)
  have b: "(y + 1 - 1901) div 100 = (y - 1901) div 100 + (if (y - 1900) mod 100 = 0 then 1 else 0)"
    using div_succ [of 100 "y - 1901"] by (simp add: algebra_simps)
  have c: "(y - 1601) div 400 \<le> (y + 1 - 1601) div 400"
    by (rule zdiv_mono1) simp_all
  show ?thesis
    unfolding DayFromYear_def a b using c century_leap [of y] by (simp split: if_splits)
qed

lemma DayFromYear_mono: "y \<le> y' \<Longrightarrow> DayFromYear y \<le> DayFromYear y'"
proof -
  assume "y \<le> y'"
  then have "DayFromYear y \<le> DayFromYear (y + int n)" if "y' = y + int n" for n
    using that
  proof (induction n arbitrary: y')
    case 0
    then show ?case by simp
  next
    case (Suc n)
    have "DayFromYear y \<le> DayFromYear (y + int n)" using Suc.IH by simp
    also have "\<dots> \<le> DayFromYear (y + int n + 1)" using DayFromYear_next [of "y + int n"] by simp
    finally show ?case by (simp add: algebra_simps)
  qed
  moreover have "y' = y + int (nat (y' - y))" using \<open>y \<le> y'\<close> by simp
  ultimately show ?thesis by metis
qed

lemma DayWithinYear_cases:
  assumes "1 \<le> (m::int)" "m \<le> 12"
  shows "m = 1 \<or> m = 2 \<or> m = 3 \<or> m = 4 \<or> m = 5 \<or> m = 6 \<or> m = 7 \<or> m = 8 \<or> m = 9 \<or> m = 10
         \<or> m = 11 \<or> m = 12"
  using assms by arith

lemma DayWithinYear_bounds:
  assumes "1 \<le> m" "m \<le> 12"
  shows "30 * (m - 1) - 2 \<le> DayWithinYear y m \<and> DayWithinYear y m \<le> 30 * (m - 1) + 6"
  using DayWithinYear_cases [OF assms] by (auto simp: DayWithinYear_def InLeapYear_def)

lemma DayWithinYear_strict:
  assumes "1 \<le> m" "m < m'" "m' \<le> 12"
  shows "DayWithinYear y m < DayWithinYear y m'"
proof -
  have a: "1 \<le> m'" "m \<le> 12" using assms by simp_all
  have "DayWithinYear y m \<le> 30 * (m - 1) + 6" using DayWithinYear_bounds [OF assms(1) a(2)] by simp
  have "m + 1 = m' \<or> m + 2 \<le> m'" using assms by arith
  then show ?thesis
  proof
    assume "m + 1 = m'"
    then have "m' = m + 1" by simp
    then show ?thesis
      using DayWithinYear_cases [OF assms(1) a(2)] assms
      by (auto simp: DayWithinYear_def InLeapYear_def)
  next
    assume "m + 2 \<le> m'"
    then show ?thesis
      using DayWithinYear_bounds [OF assms(1) a(2), of y] DayWithinYear_bounds [OF a(1) assms(3), of y]
      by arith
  qed
qed

text \<open>Later months start on later days.\<close>

lemma month_days_strict:
  assumes "1 \<le> m" "m \<le> 12" "1 \<le> m'" "m' \<le> 12" "y < y' \<or> (y = y' \<and> m < m')"
  shows "month_days y m < month_days y' m'"
  using assms(5)
proof
  assume "y < y'"
  then have "DayFromYear (y + 1) \<le> DayFromYear y'" by (simp add: DayFromYear_mono)
  then show ?thesis
    using DayFromYear_next [of y] DayWithinYear_bounds [OF assms(1,2), of y]
      DayWithinYear_bounds [OF assms(3,4), of y'] assms(1-4)
    unfolding month_days_def by arith
next
  assume "y = y' \<and> m < m'"
  then show ?thesis
    using DayWithinYear_strict [of m m' y] assms by (simp add: month_days_def)
qed

lemma month_time_Fin:
  assumes "1000 \<le> y" "y \<le> 9999" "1 \<le> m" "m \<le> 12"
  shows "month_time y m = Fin (of_int (month_days y m * msPerDay))"
proof -
  have "DayFromYear 1000 \<le> DayFromYear y" "DayFromYear y \<le> DayFromYear 9999"
    using assms by (simp_all add: DayFromYear_mono)
  moreover have "DayFromYear 1000 = - 354285" "DayFromYear 9999 = 2932532"
    by (simp_all add: DayFromYear_def)
  ultimately have "\<bar>month_days y m\<bar> \<le> 3000000"
    using DayWithinYear_bounds [OF assms(3,4), of y] assms(3,4) unfolding month_days_def by arith
  then have "\<bar>month_days y m * msPerDay\<bar> \<le> 8640000000000000"
    unfolding msPerDay_def by arith
  then show ?thesis
    using assms by (simp add: month_time_def TimeClip_def month_days_def)
qed

lemma month_days_less_iff:
  assumes "valid_year_month y m" "valid_year_month y' m'"
  shows "month_days y m < month_days y' m' \<longleftrightarrow> y < y' \<or> (y = y' \<and> m < m')"
proof
  assume "y < y' \<or> (y = y' \<and> m < m')"
  then show "month_days y m < month_days y' m'"
    using assms by (intro month_days_strict) (simp_all add: valid_year_month_def)
next
  assume l: "month_days y m < month_days y' m'"
  show "y < y' \<or> (y = y' \<and> m < m')"
  proof (rule ccontr)
    assume "\<not> (y < y' \<or> (y = y' \<and> m < m'))"
    then have "(y = y' \<and> m = m') \<or> (y' < y \<or> (y' = y \<and> m' < m))" by auto
    then show False
    proof
      assume "y = y' \<and> m = m'"
      then show False using l by simp
    next
      assume "y' < y \<or> (y' = y \<and> m' < m)"
      then have "month_days y' m' < month_days y m"
        using assms by (intro month_days_strict) (simp_all add: valid_year_month_def)
      then show False using l by simp
    qed
  qed
qed

subsection \<open>Sorting with a comparator\<close>

lemma mset_insert_by: "mset (insert_by cmp x ys) = add_mset x (mset ys)"
  by (induction ys) simp_all

lemma sort_by_Cons: "sort_by cmp (x # xs) = insert_by cmp x (sort_by cmp xs)"
  by (simp add: sort_by_def)

lemma mset_sort_by: "mset (sort_by cmp xs) = mset xs"
  by (induction xs) (simp_all add: sort_by_Cons mset_insert_by, simp add: sort_by_def)

lemma set_sort_by: "set (sort_by cmp xs) = set xs"
  using mset_sort_by [of cmp xs] by (metis set_mset_mset)

lemma length_sort_by: "length (sort_by cmp xs) = length xs"
  using mset_sort_by [of cmp xs] by (metis size_mset)

lemma insert_by_insort:
  fixes f :: "'a \<Rightarrow> rat"
  assumes "\<forall>y\<in>set ys. js_pos (cmp x y) \<longleftrightarrow> f y < f x"
  shows "insert_by cmp x ys = insort_key f x ys"
  using assms by (induction ys) auto

lemma sort_by_sort_key:
  fixes f :: "'a \<Rightarrow> rat"
  assumes "\<forall>x\<in>set xs. \<forall>y\<in>set xs. js_pos (cmp x y) \<longleftrightarrow> f y < f x"
  shows "sort_by cmp xs = sort_key f xs"
  using assms
proof (induction xs)
  case Nil
  then show ?case by (simp add: sort_by_def)
next
  case (Cons x xs)
  then have "sort_by cmp xs = sort_key f xs" by simp
  moreover have "insert_by cmp x (sort_key f xs) = insort_key f x (sort_key f xs)"
    using Cons.prems by (intro insert_by_insort) simp
  ultimately show ?case by (simp add: sort_by_Cons)
qed

text \<open>
  A sort that breaks ties by the place in the list it is given: when the comparator is
  the order of \<open>f\<close> and the list comes in the order of \<open>p\<close>, the result is in the order
  of \<open>f\<close>, and of \<open>p\<close> among equals.
\<close>

lemma insert_by_ranked:
  fixes f :: "'a \<Rightarrow> rat" and p :: "'a \<Rightarrow> nat"
  assumes "sorted_wrt (\<lambda>a b. f a < f b \<or> (f a = f b \<and> p a < p b)) ys"
    and "\<forall>y\<in>set ys. p x < p y"
    and "\<forall>y\<in>set ys. js_pos (cmp x y) \<longleftrightarrow> f y < f x"
  shows "sorted_wrt (\<lambda>a b. f a < f b \<or> (f a = f b \<and> p a < p b)) (insert_by cmp x ys)"
  using assms
proof (induction ys)
  case Nil
  then show ?case by simp
next
  case (Cons y ys)
  show ?case
  proof (cases "js_pos (cmp x y)")
    case True
    then have "f y < f x" using Cons.prems(3) by simp
    moreover have "sorted_wrt (\<lambda>a b. f a < f b \<or> (f a = f b \<and> p a < p b)) (insert_by cmp x ys)"
      using Cons by simp
    moreover have "set (insert_by cmp x ys) = insert x (set ys)"
      using mset_insert_by [of cmp x ys] by (metis set_mset_add_mset_insert set_mset_mset)
    ultimately show ?thesis using True Cons.prems(1) by auto
  next
    case False
    then have "f x \<le> f y" using Cons.prems(3) by auto
    then have "\<forall>z\<in>set (y # ys). f x < f z \<or> (f x = f z \<and> p x < p z)"
      using Cons.prems(1,2) by fastforce
    then show ?thesis using False Cons.prems(1) by simp
  qed
qed

lemma sort_by_ranked:
  fixes f :: "'a \<Rightarrow> rat" and p :: "'a \<Rightarrow> nat"
  assumes "sorted_wrt (\<lambda>a b. p a < p b) xs"
    and "\<forall>x\<in>set xs. \<forall>y\<in>set xs. js_pos (cmp x y) \<longleftrightarrow> f y < f x"
  shows "sorted_wrt (\<lambda>a b. f a < f b \<or> (f a = f b \<and> p a < p b)) (sort_by cmp xs)"
  using assms
proof (induction xs)
  case Nil
  then show ?case by (simp add: sort_by_def)
next
  case (Cons x xs)
  have "sorted_wrt (\<lambda>a b. f a < f b \<or> (f a = f b \<and> p a < p b)) (sort_by cmp xs)"
    using Cons by simp
  then show ?case
    unfolding sort_by_Cons using Cons.prems
    by (intro insert_by_ranked) (simp_all add: set_sort_by)
qed

subsection \<open>The sorted series\<close>

lemma bucket_of_new_item: "bucket_of (year x) (month x) (new_item x)"
  by (simp add: bucket_of_def new_item_def get_prop_def month_text_def)

lemma bucket_of_set_prop:
  "c \<notin> set date_fields \<Longrightarrow> bucket_of y m b \<Longrightarrow> bucket_of y m (set_prop b c v)"
  by (auto simp: bucket_of_def get_prop_set_prop date_fields_def)

lemma grouped_bucket_of:
  assumes "\<forall>x\<in>set xs. category x \<notin> set date_fields"
    and "map_of (groupedAnalytics xs) k = Some b"
  shows "\<exists>x\<in>set xs. k = bucket_key (year x) (month x) \<and> bucket_of (year x) (month x) b"
  using assms
proof (induction xs arbitrary: k b rule: rev_induct)
  case Nil
  then show ?case by (simp add: groupedAnalytics_def)
next
  case (snoc x xs)
  have c: "category x \<notin> set date_fields" using snoc.prems(1) by simp
  show ?case
  proof (cases "bucket_key (year x) (month x) = k")
    case False
    then have "map_of (groupedAnalytics xs) k = Some b"
      using snoc.prems(2) by (simp add: grouped_snoc bucket_lookup)
    then show ?thesis using snoc.IH [of k b] snoc.prems(1) by auto
  next
    case True
    define b0 where "b0 = (case map_of (groupedAnalytics xs) k of None \<Rightarrow> new_item x | Some b \<Rightarrow> b)"
    have b: "b = set_prop b0 (category x) (js_plus (or0 (get_prop b0 (category x))) (totalAmount x))"
      using snoc.prems(2) True by (simp add: grouped_snoc bucket_lookup b0_def)
    have "bucket_of (year x) (month x) b0"
    proof (cases "map_of (groupedAnalytics xs) k")
      case None
      then show ?thesis by (simp add: b0_def bucket_of_new_item)
    next
      case (Some b1)
      then obtain x' where "x' \<in> set xs" "k = bucket_key (year x') (month x')"
          "bucket_of (year x') (month x') b1"
        using snoc.IH [of k b1] snoc.prems(1) by auto
      then show ?thesis using True Some by (auto simp: b0_def bucket_key_eq_iff)
    qed
    then have "bucket_of (year x) (month x) b"
      unfolding b using c by (rule bucket_of_set_prop [rotated])
    then show ?thesis using True by auto
  qed
qed

lemma bucket_of_time:
  assumes "bucket_of y m b" "valid_year_month y m"
  shows "getTime (get_prop b ''month'') = Fin (of_int (month_days y m * msPerDay))"
  using assms by (simp add: bucket_of_def valid_year_month_def month_text_parse month_time_Fin)

lemma time_less_earlier:
  assumes "bucket_of y m a" "valid_year_month y m" "bucket_of y' m' b" "valid_year_month y' m'"
  shows "time_of a < time_of b \<longleftrightarrow> earlier a b"
proof -
  have "time_of a < time_of b \<longleftrightarrow> month_days y m < month_days y' m'"
    using bucket_of_time [OF assms(1,2)] bucket_of_time [OF assms(3,4)]
    by (simp add: time_of_def msPerDay_def)
  also have "\<dots> \<longleftrightarrow> y < y' \<or> (y = y' \<and> m < m')"
    by (rule month_days_less_iff [OF assms(2,4)])
  also have "\<dots> \<longleftrightarrow> earlier a b"
    using assms(1,3) by (simp add: earlier_def year_month_def bucket_of_def)
  finally show ?thesis .
qed

lemma grouped_valid_bucket:
  assumes "valid_dates xs" "b \<in> set (map snd (groupedAnalytics xs))"
  shows "\<exists>y m. bucket_of y m b \<and> valid_year_month y m
           \<and> map_of (groupedAnalytics xs) (bucket_key y m) = Some b"
proof -
  obtain k where "map_of (groupedAnalytics xs) k = Some b"
    using assms(2) by (auto simp: grouped_mem_iff)
  moreover from this obtain x where "x \<in> set xs" "k = bucket_key (year x) (month x)"
      "bucket_of (year x) (month x) b"
    using grouped_bucket_of [of xs k b] assms(1) by (auto simp: valid_dates_def list_all_iff)
  ultimately show ?thesis using assms(1) by (auto simp: valid_dates_def list_all_iff)
qed

lemma sorted_by_time:
  assumes "valid_dates xs"
  shows "sortedChartData (groupedAnalytics xs) = sort_key time_of (map snd (groupedAnalytics xs))"
  unfolding sortedChartData_def
proof (rule sort_by_sort_key, intro ballI)
  fix a b
  assume "a \<in> set (map snd (groupedAnalytics xs))" "b \<in> set (map snd (groupedAnalytics xs))"
  then obtain y m y' m' where "bucket_of y m a" "valid_year_month y m" "bucket_of y' m' b"
      "valid_year_month y' m'"
    using grouped_valid_bucket [OF assms] by blast
  then show "js_pos (js_sub (getTime (get_prop a ''month'')) (getTime (get_prop b ''month'')))
      \<longleftrightarrow> time_of b < time_of a"
    by (simp add: bucket_of_time time_of_def js_sub_def)
qed

lemma times_distinct:
  assumes "valid_dates xs"
  shows "distinct (map time_of (map snd (groupedAnalytics xs)))"
proof -
  have "inj_on time_of (set (map snd (groupedAnalytics xs)))"
  proof (rule inj_onI)
    fix a b
    assume a: "a \<in> set (map snd (groupedAnalytics xs))" and b: "b \<in> set (map snd (groupedAnalytics xs))"
      and eq: "time_of a = time_of b"
    obtain y m where 1: "bucket_of y m a" "valid_year_month y m"
        "map_of (groupedAnalytics xs) (bucket_key y m) = Some a"
      using grouped_valid_bucket [OF assms a] by blast
    obtain y' m' where 2: "bucket_of y' m' b" "valid_year_month y' m'"
        "map_of (groupedAnalytics xs) (bucket_key y' m') = Some b"
      using grouped_valid_bucket [OF assms b] by blast
    have "\<not> month_days y m < month_days y' m'" "\<not> month_days y' m' < month_days y m"
      using eq bucket_of_time [OF 1(1,2)] bucket_of_time [OF 2(1,2)]
      by (simp_all add: time_of_def msPerDay_def)
    then have "y = y' \<and> m = m'"
      using month_days_less_iff [OF 1(2) 2(2)] month_days_less_iff [OF 2(2) 1(2)] by auto
    then show "a = b" using 1(3) 2(3) by simp
  qed
  moreover have "distinct (map snd (groupedAnalytics xs))"
  proof -
    have "inj_on snd (set (groupedAnalytics xs))"
    proof (rule inj_onI)
      fix p q
      assume p: "p \<in> set (groupedAnalytics xs)" and q: "q \<in> set (groupedAnalytics xs)"
        and eq: "snd p = snd q"
      obtain k b where pk: "p = (k, b)" by (cases p)
      obtain k' where qk: "q = (k', b)" using eq pk by (cases q) auto
      have cs: "\<forall>x\<in>set xs. category x \<notin> set date_fields"
        using assms by (simp add: valid_dates_def list_all_iff)
      have l: "map_of (groupedAnalytics xs) k = Some b" "map_of (groupedAnalytics xs) k' = Some b"
        using p q pk qk by (simp_all add: grouped_mem_iff)
      obtain x :: AnalyticsData where x: "k = bucket_key (year x) (month x)" "bucket_of (year x) (month x) b"
        using grouped_bucket_of [OF cs l(1)] by blast
      obtain x' :: AnalyticsData where x': "k' = bucket_key (year x') (month x')" "bucket_of (year x') (month x') b"
        using grouped_bucket_of [OF cs l(2)] by blast
      have "year x = year x'" "month x = month x'"
        using x(2) x'(2) by (simp_all add: bucket_of_def)
      then have "k = k'" using x(1) x'(1) by simp
      then show "p = q" using pk qk by simp
    qed
    moreover have "distinct (groupedAnalytics xs)"
      using keys_grouped(1) [of xs] by (simp add: distinct_map)
    ultimately show ?thesis by (simp add: distinct_map)
  qed
  ultimately show ?thesis by (simp add: distinct_map comp_inj_on)
qed

lemma grouped_year_month:
  assumes "valid_dates xs"
  shows "year_month ` set (map snd (groupedAnalytics xs))
         = (\<lambda>x. Some (of_int (year x), of_int (month x))) ` set xs"
proof (intro set_eqI iffI)
  fix v
  assume "v \<in> year_month ` set (map snd (groupedAnalytics xs))"
  then obtain k b where kb: "map_of (groupedAnalytics xs) k = Some b" "v = year_month b"
    by (auto simp: grouped_mem_iff)
  have cs: "\<forall>x\<in>set xs. category x \<notin> set date_fields"
    using assms by (simp add: valid_dates_def list_all_iff)
  obtain x :: AnalyticsData where "x \<in> set xs" "bucket_of (year x) (month x) b"
    using grouped_bucket_of [OF cs kb(1)] by blast
  then show "v \<in> (\<lambda>x. Some (of_int (year x), of_int (month x))) ` set xs"
    using kb(2) by (auto simp: year_month_def bucket_of_def)
next
  fix v :: "(rat \<times> rat) option"
  assume "v \<in> (\<lambda>x. Some (of_int (year x), of_int (month x))) ` set xs"
  then obtain x where x: "x \<in> set xs" "v = Some (of_int (year x), of_int (month x))"
    by auto
  have cs: "\<forall>x\<in>set xs. category x \<notin> set date_fields"
    using assms by (simp add: valid_dates_def list_all_iff)
  have "bucket_key (year x) (month x) \<in> set (map fst (groupedAnalytics xs))"
    using x(1) unfolding keys_grouped(2) by blast
  then obtain b where b: "map_of (groupedAnalytics xs) (bucket_key (year x) (month x)) = Some b"
    by (auto simp: grouped_mem_iff)
  obtain x' :: AnalyticsData where "bucket_key (year x) (month x) = bucket_key (year x') (month x')"
      "bucket_of (year x') (month x') b"
    using grouped_bucket_of [OF cs b] by blast
  then have "year_month b = v"
    using x(2) by (simp add: bucket_key_eq_iff year_month_def bucket_of_def)
  moreover have "b \<in> set (map snd (groupedAnalytics xs))"
    using b by (force simp: grouped_mem_iff [symmetric])
  ultimately show "v \<in> year_month ` set (map snd (groupedAnalytics xs))"
    by blast
qed

text \<open>
  C4, for records that leave the date fields alone. For every collection of records
  with years from 1000 to 9999 and months from 1 to 12, none of them of a category named
  \<open>month\<close>, \<open>year\<close> or \<open>monthNum\<close>, the series is strictly ascending by (year, month),
  the year first: every bucket is of an earlier month than each bucket after it, so no
  (year, month) pair comes twice. The series holds the buckets of the aggregation, and
  their (year, month) pairs are those of the input.
\<close>

theorem series_sorted_by_year_month:
  assumes "\<forall>x\<in>set analytics. 1000 \<le> year x \<and> year x \<le> 9999 \<and> 1 \<le> month x \<and> month x \<le> 12"
    and "\<forall>x\<in>set analytics. category x \<notin> {''month'', ''year'', ''monthNum''}"
  shows "sorted_wrt earlier (sortedChartData (groupedAnalytics analytics))
    \<and> mset (sortedChartData (groupedAnalytics analytics)) = mset (map snd (groupedAnalytics analytics))
    \<and> year_month ` set (sortedChartData (groupedAnalytics analytics))
        = (\<lambda>x. Some (of_int (year x), of_int (month x))) ` set analytics"
proof -
  let ?bs = "map snd (groupedAnalytics analytics)"
  let ?S = "sortedChartData (groupedAnalytics analytics)"
  have v: "valid_dates analytics"
    using assms by (simp add: valid_dates_def list_all_iff valid_year_month_def date_fields_def)
  have S: "?S = sort_key time_of ?bs"
    by (rule sorted_by_time [OF v])
  have m: "mset ?S = mset ?bs"
    by (simp add: sortedChartData_def mset_sort_by)
  then have set: "set ?S = set ?bs"
    by (metis set_mset_mset)
  have "mset (map time_of ?S) = mset (map time_of ?bs)"
    using m by (metis mset_map)
  then have "distinct (map time_of ?S)"
    using times_distinct [OF v] by (metis mset_eq_imp_distinct_iff)
  moreover have "sorted (map time_of ?S)"
    unfolding S by (rule sorted_sort_key)
  ultimately have "sorted_wrt (<) (map time_of ?S)"
    by (simp add: strict_sorted_iff)
  then have "sorted_wrt (\<lambda>a b. time_of a < time_of b) ?S"
    by (simp add: sorted_wrt_map)
  then have "sorted_wrt earlier ?S"
  proof (rule sorted_wrt_mono_rel [rotated])
    fix a b
    assume "a \<in> set ?S" "b \<in> set ?S" "time_of a < time_of b"
    moreover from this obtain y m y' m' where "bucket_of y m a" "valid_year_month y m"
        "bucket_of y' m' b" "valid_year_month y' m'"
      using grouped_valid_bucket [OF v] unfolding set by blast
    ultimately show "earlier a b"
      by (simp add: time_less_earlier)
  qed
  then show ?thesis
    using m grouped_year_month [OF v] set by simp
qed

text \<open>
  Records given out of order, two of them of one month: the buckets are made in the
  order February 2024, December 2023, January 2024, and the series is in order.
\<close>

theorem series_sorted_witness:
  "list_all (\<lambda>x. 1000 \<le> year x \<and> year x \<le> 9999 \<and> 1 \<le> month x \<and> month x \<le> 12
                \<and> category x \<notin> {''month'', ''year'', ''monthNum''}) out_of_order
   \<and> map year_month (map snd (groupedAnalytics out_of_order))
       = [Some (2024, 2), Some (2023, 12), Some (2024, 1)]
   \<and> sorted_wrt earlier (sortedChartData (groupedAnalytics out_of_order))"
proof -
  have 1: "\<forall>x\<in>set out_of_order. 1000 \<le> year x \<and> year x \<le> 9999 \<and> 1 \<le> month x \<and> month x \<le> 12"
    by (simp add: out_of_order_def)
  have 2: "\<forall>x\<in>set out_of_order. category x \<notin> {''month'', ''year'', ''monthNum''}"
    by (simp add: out_of_order_def)
  have 3: "map year_month (map snd (groupedAnalytics out_of_order))
       = [Some (2024, 2), Some (2023, 12), Some (2024, 1)]"
    by code_simp
  show ?thesis
    using series_sorted_by_year_month [OF 1 2] 1 2 3 by (simp add: list_all_iff)
qed

text \<open>
  A record of the category \<open>year\<close> adds its amount to the year of its bucket: the
  bucket of January 2024 then shows the year 2029 and still comes before the bucket of
  January 2025.
\<close>

theorem series_sorted_counterexample:
  "list_all (\<lambda>x. 1000 \<le> year x \<and> year x \<le> 9999 \<and> 1 \<le> month x \<and> month x \<le> 12) year_clash
   \<and> map year_month (sortedChartData (groupedAnalytics year_clash)) = [Some (2029, 1), Some (2025, 1)]
   \<and> \<not> sorted_wrt earlier (sortedChartData (groupedAnalytics year_clash))"
proof -
  have "sortedChartData (groupedAnalytics year_clash) =
     [[(''month'', Str ''2024-01''), (''year'', Num (Fin 2029)), (''monthNum'', Num (Fin 1)),
       (''label'', Opaque)],
      [(''month'', Str ''2025-01''), (''year'', Num (Fin 2025)), (''monthNum'', Num (Fin 1)),
       (''label'', Opaque), (''Rental'', Num (Fin 1))]]"
    by code_simp
  then show ?thesis
    by (simp add: year_clash_def earlier_def year_month_def get_prop_def)
qed

section \<open>Totals, shares and ranking\<close>

lemma foldl_plus:
  fixes a :: jsnum
  shows "foldl (\<lambda>s x. s + f x) a xs = a + sum_list (map f xs)"
  by (induction xs arbitrary: a) (simp_all add: add.assoc)

lemma category_total_sum:
  "category_total w c = sum_list (map (\<lambda>b. amount_or0 (get_prop b c)) w)"
  by (simp add: category_total_def foldl_plus)

lemma totalExpenses_sum:
  "totalExpenses w = sum_list (map (\<lambda>b. sum_list (map (\<lambda>c. amount_or0 (get_prop b c)) category_keys)) w)"
  by (simp add: totalExpenses_def foldl_plus)

lemma sum_list_exchange:
  fixes f :: "'a \<Rightarrow> 'b \<Rightarrow> jsnum"
  shows "sum_list (map (\<lambda>b. sum_list (map (f b) cs)) bs)
         = sum_list (map (\<lambda>c. sum_list (map (\<lambda>b. f b c) bs)) cs)"
proof (induction bs)
  case Nil
  then show ?case by (induction cs) simp_all
next
  case (Cons b bs)
  then show ?case by (simp add: sum_list_addf)
qed

lemma totalExpenses_by_category:
  "totalExpenses w = sum_list (map (category_total w) category_keys)"
  unfolding totalExpenses_sum
  by (subst sum_list_exchange) (simp add: category_total_sum [abs_def])

lemma entries_mset:
  "mset (categoryTotals w) =
   mset (map (\<lambda>(c, col). \<lparr>ct_category = c, ct_total = category_total w c, ct_color = col\<rparr>)
           CATEGORY_COLORS)"
  by (simp add: categoryTotals_def mset_sort_by)

lemma entries_set:
  "set (categoryTotals w) =
   (\<lambda>(c, col). \<lparr>ct_category = c, ct_total = category_total w c, ct_color = col\<rparr>) ` set CATEGORY_COLORS"
  by (simp add: categoryTotals_def set_sort_by)

lemma sum_list_mset_cong:
  fixes xs ys :: "jsnum list"
  shows "mset xs = mset ys \<Longrightarrow> sum_list xs = sum_list ys"
  by (metis sum_mset_sum_list)

lemma entries_totals_sum: "sum_list (map ct_total (categoryTotals w)) = totalExpenses w"
proof -
  have "mset (map ct_total (categoryTotals w)) = mset (map (category_total w) category_keys)"
    unfolding mset_map entries_mset by (simp add: category_keys_def CATEGORY_COLORS_def)
  then show ?thesis
    unfolding totalExpenses_by_category by (rule sum_list_mset_cong)
qed

lemma plus_Fin_D: "a + b = Fin g \<Longrightarrow> isFinite a \<and> isFinite b"
  by (cases a; cases b) simp_all

lemma sum_list_Fin_D: "sum_list ns = Fin g \<Longrightarrow> \<forall>n\<in>set ns. isFinite n"
proof (induction ns arbitrary: g)
  case Nil
  then show ?case by simp
next
  case (Cons n ns)
  then have "isFinite n" "isFinite (sum_list ns)"
    using plus_Fin_D [of n "sum_list ns" g] by simp_all
  moreover from this obtain q where "sum_list ns = Fin q" by (cases "sum_list ns") simp_all
  ultimately show ?case using Cons.IH by simp
qed

lemma isFinite_the_fin: "isFinite n \<Longrightarrow> n = Fin (the_fin n)"
  by (cases n) simp_all

lemma sum_list_the_fin: "\<forall>n\<in>set ns. isFinite n \<Longrightarrow> sum_list ns = Fin (sum_list (map the_fin ns))"
proof (induction ns)
  case Nil
  then show ?case by (simp add: zero_jsnum_def)
next
  case (Cons n ns)
  then show ?case using isFinite_the_fin [of n] by (cases n) simp_all
qed

text \<open>When the grand total is a finite number, so is the total of every category.\<close>

lemma entries_finite:
  assumes "totalExpenses w = Fin g"
  shows "\<forall>e\<in>set (categoryTotals w). isFinite (ct_total e)"
  using sum_list_Fin_D [of "map ct_total (categoryTotals w)" g] assms
  by (simp add: entries_totals_sum)

lemma entries_the_fin_sum:
  assumes "totalExpenses w = Fin g"
  shows "sum_list (map (\<lambda>e. the_fin (ct_total e)) (categoryTotals w)) = g"
proof -
  have "\<forall>n\<in>set (map ct_total (categoryTotals w)). isFinite n"
    using entries_finite [OF assms] by simp
  from sum_list_the_fin [OF this] show ?thesis
    using assms by (simp add: entries_totals_sum comp_def)
qed

lemma sum_list_divide:
  fixes f :: "'a \<Rightarrow> rat"
  shows "sum_list (map (\<lambda>x. f x / c) xs) = sum_list (map f xs) / c"
  by (induction xs) (simp_all add: add_divide_distrib)

lemma isFinite_sum: "\<forall>x\<in>set ns. isFinite x \<Longrightarrow> isFinite (sum_list ns)"
  using isFinite_sum_list [of ns] by auto

lemma sum_list_zeros:
  fixes f :: "'a \<Rightarrow> jsnum"
  shows "\<forall>x\<in>set xs. f x = 0 \<Longrightarrow> sum_list (map f xs) = 0"
  by (induction xs) simp_all

subsection \<open>The windows of the pipeline\<close>

text \<open>
  In a bucket the aggregation makes from finite amounts, the property of a known category
  is absent or a finite number: what \<open>amount_or0\<close> reads there is a number.
\<close>

lemma known_fields_numeric:
  assumes "\<forall>x\<in>set xs. isFinite (totalAmount x)" "(k, b) \<in> set (groupedAnalytics xs)"
    "c \<in> set category_keys"
  shows "get_prop b c = None \<or> (\<exists>q. get_prop b c = Some (Num (Fin q)))"
proof -
  have "get_prop b c = field_of (groupedAnalytics xs) k c"
    using assms(2) by (simp add: grouped_mem_iff field_of_def)
  also have "\<dots> = foldl (cell_step k c) None xs"
    by (rule field_of_grouped [OF known_plain [OF assms(3)]])
  also have "\<dots> = (if records_of k c xs = [] then None
      else Some (Num (sum_list (map totalAmount (records_of k c xs)))))"
    by (rule cell_fold_None [OF assms(1)])
  finally show ?thesis
    using isFinite_sum_list [of "map totalAmount (records_of k c xs)"] assms(1)
    by (auto simp: records_of_def)
qed

text \<open>Whatever the amounts, the property of a known category is absent or a number.\<close>

lemma known_fields_numbers:
  assumes "(k, b) \<in> set (groupedAnalytics xs)" "c \<in> set category_keys"
  shows "get_prop b c = None \<or> (\<exists>n. get_prop b c = Some (Num n))"
proof -
  have "foldl (cell_step k c) v ys = None \<or> (\<exists>n. foldl (cell_step k c) v ys = Some (Num n))"
    if "v = None \<or> (\<exists>n. v = Some (Num n))" for v ys
    using that
  proof (induction ys arbitrary: v)
    case Nil
    then show ?case by simp
  next
    case (Cons y ys)
    have "cell_step k c v y = None \<or> (\<exists>n. cell_step k c v y = Some (Num n))"
      using Cons.prems by (auto simp: cell_step_def)
    from Cons.IH [OF this] show ?case by simp
  qed
  from this [of None xs] show ?thesis
    using assms field_of_grouped [OF known_plain [OF assms(2)], of xs k]
    by (simp add: grouped_mem_iff field_of_def)
qed

lemma window_subset: "set (chart_window tf xs) \<subseteq> snd ` set (groupedAnalytics xs)"
proof -
  have "set (filteredChartData tf ys) \<subseteq> set ys" for ys :: "jsobject list"
    by (cases tf) (auto simp: slice_3 slice_6 dest: in_set_dropD)
  from this [of "sortedChartData (groupedAnalytics xs)"] show ?thesis
    by (simp add: chart_window_def sortedChartData_def set_sort_by)
qed

lemma window_total_finite:
  assumes "\<forall>x\<in>set xs. isFinite (totalAmount x)"
  shows "\<exists>g. totalExpenses (chart_window tf xs) = Fin g"
proof -
  have "isFinite (amount_or0 (get_prop b c))"
    if b: "b \<in> set (chart_window tf xs)" and c: "c \<in> set category_keys" for b c
  proof -
    have "b \<in> snd ` set (groupedAnalytics xs)"
      using b window_subset [of tf xs] by blast
    then obtain k where "(k, b) \<in> set (groupedAnalytics xs)"
      by force
    from known_fields_numeric [OF assms this c] show ?thesis
      by (auto simp: zero_jsnum_def)
  qed
  then have "isFinite (sum_list (map (\<lambda>c. amount_or0 (get_prop b c)) category_keys))"
    if "b \<in> set (chart_window tf xs)" for b
    using that by (intro isFinite_sum) simp
  then have "isFinite (totalExpenses (chart_window tf xs))"
    unfolding totalExpenses_sum by (intro isFinite_sum) simp
  then show ?thesis
    by (cases "totalExpenses (chart_window tf xs)") simp_all
qed

subsection \<open>The scenario of the specification, evaluated\<close>

lemma scenario_window:
  "chart_window all scenario =
    [[(''month'', Str ''2024-01''), (''year'', Num (Fin 2024)), (''monthNum'', Num (Fin 1)),
      (''label'', Opaque), (''Groceries'', Num (Fin 125)), (''Travel'', Num (Fin 50))],
     [(''month'', Str ''2024-02''), (''year'', Num (Fin 2024)), (''monthNum'', Num (Fin 2)),
      (''label'', Opaque), (''Groceries'', Num (Fin 200))]]"
  by code_simp

lemma scenario_total: "totalExpenses (chart_window all scenario) = Fin 375"
  unfolding scenario_window by code_simp

lemma scenario_ranking:
  "categoryTotals (chart_window all scenario) =
    [\<lparr>ct_category = ''Groceries'', ct_total = Fin 325, ct_color = ''#82ca9d''\<rparr>,
     \<lparr>ct_category = ''Travel'', ct_total = Fin 50, ct_color = ''#ff7300''\<rparr>,
     \<lparr>ct_category = ''Rental'', ct_total = Fin 0, ct_color = ''#8884d8''\<rparr>,
     \<lparr>ct_category = ''Entertainment'', ct_total = Fin 0, ct_color = ''#ffc658''\<rparr>,
     \<lparr>ct_category = ''Others'', ct_total = Fin 0, ct_color = ''#413ea0''\<rparr>]"
  unfolding scenario_window by code_simp

subsection \<open>Shares\<close>

text \<open>
  C9. For every windowed series whose grand total is a finite number greater than 0 (such
  a series is not empty), the shares \<open>total / grandTotal\<close> of the entries of the ranking,
  one per known category, add up to exactly 1.
\<close>

theorem shares_sum_to_one:
  assumes "totalExpenses w = Fin g" and "0 < g"
  shows "sum_list (map (\<lambda>e. shareOfTotal (ct_total e) (totalExpenses w)) (categoryTotals w)) = Fin 1"
proof -
  have "shareOfTotal (ct_total e) (totalExpenses w) = Fin (the_fin (ct_total e) / g)"
    if "e \<in> set (categoryTotals w)" for e
  proof -
    have "isFinite (ct_total e)" using entries_finite [OF assms(1)] that by blast
    then obtain t where "ct_total e = Fin t" by (cases "ct_total e") simp_all
    then show ?thesis using assms by (simp add: shareOfTotal_def)
  qed
  then have "map (\<lambda>e. shareOfTotal (ct_total e) (totalExpenses w)) (categoryTotals w)
      = map (\<lambda>e. Fin (the_fin (ct_total e) / g)) (categoryTotals w)"
    by simp
  also have "sum_list \<dots> = Fin (sum_list (map (\<lambda>e. the_fin (ct_total e) / g) (categoryTotals w)))"
    using sum_list_the_fin [of "map (\<lambda>e. Fin (the_fin (ct_total e) / g)) (categoryTotals w)"]
    by (simp add: comp_def)
  also have "\<dots> = Fin 1"
    using assms(2) by (simp add: sum_list_divide entries_the_fin_sum [OF assms(1)])
  finally show ?thesis .
qed

text \<open>
  The scenario: 325 / 375 + 50 / 375 + 0 + 0 + 0 = 1.
\<close>

theorem shares_sum_witness:
  "totalExpenses (chart_window all scenario) = Fin 375 \<and> (0::rat) < 375
   \<and> sum_list (map (\<lambda>e. shareOfTotal (ct_total e) (totalExpenses (chart_window all scenario)))
        (categoryTotals (chart_window all scenario))) = Fin 1"
  using shares_sum_to_one [OF scenario_total] scenario_total by simp

text \<open>
  C2, where the code shows a share. For every windowed series whose grand total is a
  finite number \<open>g > 0\<close> and every category, the total \<open>t\<close> of the category is finite and
  its share is \<open>t / g\<close>; the breakdown is rendered and shows it as a percentage. For an
  empty windowed series, whose grand total is 0, no breakdown is rendered and no share
  is shown.
\<close>

theorem share_of_positive_total:
  assumes "totalExpenses w = Fin g" and "0 < g" and "e \<in> set (categoryTotals w)"
  shows "(\<exists>t. ct_total e = Fin t
            \<and> shareOfTotal (ct_total e) (totalExpenses w) = Fin (t / g)
            \<and> (\<exists>rows. categoryBreakdown False w = Some rows
                  \<and> (ct_category e, Fin t, Fin (t / g * 100)) \<in> set rows)
            \<and> (ct_category e, Fin t) \<in> set (pieChartData w)
            \<and> CustomPieTooltip w (ct_category e, Fin t) = Fin (t / g * 100))
    \<and> totalExpenses [] = Fin 0
    \<and> categoryBreakdown False [] = None"
proof -
  have "isFinite (ct_total e)"
    using entries_finite [OF assms(1)] assms(3) by blast
  then obtain t where t: "ct_total e = Fin t"
    by (cases "ct_total e") simp_all
  have empty: "totalExpenses [] = Fin 0"
    by (simp add: totalExpenses_def zero_jsnum_def)
  then have ne: "w \<noteq> []"
    using assms(1,2) by auto
  have share: "shareOfTotal (ct_total e) (totalExpenses w) = Fin (t / g)"
    using t assms(1,2) by (simp add: shareOfTotal_def)
  then have percent: "percentOfTotal (ct_total e) (totalExpenses w) = Fin (t / g * 100)"
    by (simp add: percentOfTotal_def)
  have "(ct_category e, ct_total e, percentOfTotal (ct_total e) (totalExpenses w))
      \<in> set (map (\<lambda>e. (ct_category e, ct_total e, percentOfTotal (ct_total e) (totalExpenses w)))
               (categoryTotals w))"
    using assms(3) by force
  then have "(ct_category e, Fin t, Fin (t / g * 100))
      \<in> set (map (\<lambda>e. (ct_category e, ct_total e, percentOfTotal (ct_total e) (totalExpenses w)))
               (categoryTotals w))"
    using percent by (simp only: t)
  then have rows: "\<exists>rows. categoryBreakdown False w = Some rows
      \<and> (ct_category e, Fin t, Fin (t / g * 100)) \<in> set rows"
    using ne by (simp add: categoryBreakdown_def)
  have pie: "(ct_category e, Fin t) \<in> set (pieChartData w)"
    using assms(3) t by (force simp: pieChartData_def)
  have tip: "CustomPieTooltip w (ct_category e, Fin t) = Fin (t / g * 100)"
    using percent t by (simp add: CustomPieTooltip_def)
  have "categoryBreakdown False [] = None"
    by (simp add: categoryBreakdown_def)
  then show ?thesis
    using t share rows pie tip empty by blast
qed

text \<open>
  The scenario: Groceries has 325 of 375.
\<close>

theorem share_witness:
  "totalExpenses (chart_window all scenario) = Fin 375 \<and> (0::rat) < 375
   \<and> \<lparr>ct_category = ''Groceries'', ct_total = Fin 325, ct_color = ''#82ca9d''\<rparr>
        \<in> set (categoryTotals (chart_window all scenario))
   \<and> shareOfTotal (Fin 325) (totalExpenses (chart_window all scenario)) = Fin (325 / 375)"
proof -
  have mem: "\<lparr>ct_category = ''Groceries'', ct_total = Fin 325, ct_color = ''#82ca9d''\<rparr>
        \<in> set (categoryTotals (chart_window all scenario))"
    unfolding scenario_ranking by simp
  have pos: "(0::rat) < 375"
    by simp
  from share_of_positive_total [OF scenario_total pos mem] show ?thesis
    using scenario_total mem by auto
qed

text \<open>
  A window that is not empty and whose grand total is 0: the one record is of the
  category Education, which is not a known one. Every share shown is \<open>NaN\<close>, not 0.
\<close>

theorem share_counterexample:
  "chart_window all education_only \<noteq> []
   \<and> totalExpenses (chart_window all education_only) = Fin 0
   \<and> categoryBreakdown False (chart_window all education_only)
       = Some [(''Rental'', Fin 0, NaN), (''Groceries'', Fin 0, NaN), (''Entertainment'', Fin 0, NaN),
               (''Travel'', Fin 0, NaN), (''Others'', Fin 0, NaN)]"
  by code_simp

subsection \<open>Ranking\<close>

lemma ranking_parts:
  assumes "totalExpenses w = Fin g"
  shows "map ct_category (map (\<lambda>(c, col). \<lparr>ct_category = c, ct_total = category_total w c, ct_color = col\<rparr>) CATEGORY_COLORS) = category_keys"
    and "mset (map ct_category (categoryTotals w)) = mset category_keys"
    and "length (categoryTotals w) = length category_keys"
    and "\<forall>e\<in>set (categoryTotals w). ct_total e = category_total w (ct_category e)"
    and "\<forall>e\<in>set (categoryTotals w). (\<forall>b\<in>set w. get_prop b (ct_category e) = None) \<longrightarrow> ct_total e = Fin 0"
    and "sorted_wrt ranks_before (categoryTotals w)"
proof -
  let ?L = "map (\<lambda>(c, col). \<lparr>ct_category = c, ct_total = category_total w c, ct_color = col\<rparr>) CATEGORY_COLORS"
  let ?f = "\<lambda>e. - the_fin (ct_total e)"
  let ?p = "\<lambda>e. position (ct_category e)"
  show names: "map ct_category ?L = category_keys"
    by (simp add: category_keys_def CATEGORY_COLORS_def)
  show "mset (map ct_category (categoryTotals w)) = mset category_keys"
    unfolding mset_map entries_mset by (simp add: category_keys_def CATEGORY_COLORS_def)
  show "length (categoryTotals w) = length category_keys"
    by (simp add: categoryTotals_def length_sort_by category_keys_def)
  show tot: "\<forall>e\<in>set (categoryTotals w). ct_total e = category_total w (ct_category e)"
    by (auto simp: entries_set)
  show "\<forall>e\<in>set (categoryTotals w). (\<forall>b\<in>set w. get_prop b (ct_category e) = None) \<longrightarrow> ct_total e = Fin 0"
  proof (intro ballI impI)
    fix e
    assume e: "e \<in> set (categoryTotals w)" and none: "\<forall>b\<in>set w. get_prop b (ct_category e) = None"
    have "category_total w (ct_category e) = 0"
      unfolding category_total_sum using none by (intro sum_list_zeros) (simp add: zero_jsnum_def)
    then show "ct_total e = Fin 0" using tot e by (simp add: zero_jsnum_def)
  qed
  have fin: "\<forall>e\<in>set ?L. isFinite (ct_total e)"
    using entries_finite [OF assms] by (simp add: entries_set)
  have "sorted_wrt (\<lambda>a b. ?p a < ?p b) ?L"
    by (simp add: CATEGORY_COLORS_def position_def category_keys_def)
  moreover have "\<forall>x\<in>set ?L. \<forall>y\<in>set ?L. js_pos (js_sub (ct_total y) (ct_total x)) \<longleftrightarrow> ?f y < ?f x"
  proof (intro ballI)
    fix x y
    assume "x \<in> set ?L" "y \<in> set ?L"
    then obtain s t where "ct_total x = Fin s" "ct_total y = Fin t"
      using fin isFinite_the_fin by blast
    then show "js_pos (js_sub (ct_total y) (ct_total x)) \<longleftrightarrow> ?f y < ?f x"
      by (simp add: js_sub_def)
  qed
  ultimately have "sorted_wrt (\<lambda>a b. ?f a < ?f b \<or> (?f a = ?f b \<and> ?p a < ?p b)) (categoryTotals w)"
    unfolding categoryTotals_def by (rule sort_by_ranked)
  then show "sorted_wrt ranks_before (categoryTotals w)"
  proof (rule sorted_wrt_mono_rel [rotated])
    fix a b
    assume "a \<in> set (categoryTotals w)" "b \<in> set (categoryTotals w)"
      and r: "?f a < ?f b \<or> (?f a = ?f b \<and> ?p a < ?p b)"
    then obtain s t where "ct_total a = Fin s" "ct_total b = Fin t"
      using entries_finite [OF assms] isFinite_the_fin by blast
    then show "ranks_before a b"
      using r by (auto simp: ranks_before_def)
  qed
qed

text \<open>
  C5. For every windowed series with a finite grand total, the ranking has one entry for
  each category of the fixed keys of \<^verbatim>\<open>CATEGORY_COLORS\<close> and no other, each with the total
  of its category over the window, which is 0 for a category no bucket of the window
  has. It is sorted by total, greatest first, and entries of equal total stand in the
  order of the keys: every entry ranks before each entry after it.
\<close>

theorem ranking_sorted_stable:
  assumes "totalExpenses w = Fin g"
  shows "mset (map ct_category (categoryTotals w)) = mset category_keys
    \<and> distinct category_keys
    \<and> length (categoryTotals w) = length category_keys
    \<and> (\<forall>e\<in>set (categoryTotals w). ct_total e = category_total w (ct_category e))
    \<and> (\<forall>e\<in>set (categoryTotals w).
          (\<forall>b\<in>set w. get_prop b (ct_category e) = None) \<longrightarrow> ct_total e = Fin 0)
    \<and> sorted_wrt ranks_before (categoryTotals w)"
proof -
  have "distinct category_keys"
    by (simp add: category_keys_def CATEGORY_COLORS_def)
  with ranking_parts [OF assms] show ?thesis
    by blast
qed

text \<open>
  The scenario: Groceries, Travel, then the three categories of total 0 in the order of the keys.
\<close>

theorem ranking_witness:
  "totalExpenses (chart_window all scenario) = Fin 375
   \<and> map ct_category (categoryTotals (chart_window all scenario))
       = [''Groceries'', ''Travel'', ''Rental'', ''Entertainment'', ''Others'']
   \<and> sorted_wrt ranks_before (categoryTotals (chart_window all scenario))"
proof -
  have "sorted_wrt ranks_before (categoryTotals (chart_window all scenario))"
    using ranking_sorted_stable [OF scenario_total] by blast
  moreover have "map ct_category (categoryTotals (chart_window all scenario))
       = [''Groceries'', ''Travel'', ''Rental'', ''Entertainment'', ''Others'']"
    by (simp add: scenario_ranking)
  ultimately show ?thesis
    using scenario_total by blast
qed

subsection \<open>Cards\<close>

text \<open>
  C8, where the cards are rendered. For every windowed series that is not empty and has
  a finite grand total \<open>g\<close>, the cards are rendered once the data has loaded, and the
  average they report is \<open>g\<close> divided by the number of buckets of the window. For an
  empty window no cards are rendered: no average is reported, neither 0 nor \<open>NaN\<close>.
\<close>

theorem average_when_rendered:
  assumes "w \<noteq> []" and "totalExpenses w = Fin g"
  shows "(\<exists>cards. summaryCards False w = Some cards
            \<and> averageMonthly cards = Fin (g / of_nat (length w))
            \<and> totalCard cards = Fin g)
    \<and> summaryCards False [] = None
    \<and> summaryCards True w = None"
  using assms by (simp add: summaryCards_def)

text \<open>
  The scenario: 375 over two buckets.
\<close>

theorem average_witness:
  "chart_window all scenario \<noteq> [] \<and> totalExpenses (chart_window all scenario) = Fin 375
   \<and> (\<exists>cards. summaryCards False (chart_window all scenario) = Some cards
         \<and> averageMonthly cards = Fin (375 / 2))"
proof -
  have ne: "chart_window all scenario \<noteq> []" and len: "length (chart_window all scenario) = 2"
    unfolding scenario_window by simp_all
  from average_when_rendered [OF ne scenario_total] show ?thesis
    using ne len scenario_total by auto
qed

text \<open>
  With no record every window is empty, and there is no card to report an average of 0.
\<close>

theorem average_counterexample:
  "chart_window all [] = [] \<and> chart_window last3Months [] = [] \<and> chart_window last6Months [] = []
   \<and> map_option averageMonthly (summaryCards False []) = None"
  by code_simp

text \<open>
  The highest category of the cards is always one of the keys: the ranking is never
  empty, and no key is the empty text.
\<close>

lemma highest_category_is_a_key: "highest_category (categoryTotals w) \<in> set category_keys"
proof -
  have "length (categoryTotals w) = 5"
    by (simp add: categoryTotals_def length_sort_by CATEGORY_COLORS_def)
  then obtain e es where e: "categoryTotals w = e # es"
    by (cases "categoryTotals w") simp_all
  then have "e \<in> set (categoryTotals w)"
    by simp
  then have "ct_category e \<in> set category_keys"
    by (force simp: entries_set category_keys_def)
  moreover from this have "ct_category e \<noteq> []"
    by (auto simp: category_keys_def CATEGORY_COLORS_def)
  ultimately show ?thesis
    by (simp add: highest_category_def e)
qed

text \<open>
  C6 at an input where it fails. One record of the category Education, which the entry
  form offers and \<^verbatim>\<open>CATEGORY_COLORS\<close> does not have: the window has one bucket, every
  total of the ranking is 0, and the cards report the highest category Rental, the
  first key. The ranking always has its five entries, so \<^verbatim>\<open>categoryTotals[0]\<close> is never
  missing and the fallback \<^verbatim>\<open>"None"\<close> is never taken.
\<close>

theorem highest_category_when_all_zero:
  "groupedAnalytics education_only
     = [(''2024-1'', [(''month'', Str ''2024-01''), (''year'', Num (Fin 2024)),
                      (''monthNum'', Num (Fin 1)), (''label'', Opaque),
                      (''Education'', Num (Fin 500))])]
   \<and> map ct_total (categoryTotals (chart_window last6Months education_only))
       = [Fin 0, Fin 0, Fin 0, Fin 0, Fin 0]
   \<and> summaryCards False (chart_window last6Months education_only)
       = Some \<lparr>averageMonthly = Fin 0, highestCategory = ''Rental'', totalCard = Fin 0\<rparr>"
  by code_simp

section \<open>Totals over all time\<close>

lemma sum_list_buckets:
  fixes F :: "jsobject \<Rightarrow> jsnum"
  shows "sum_list (map F (chart_window all xs)) = sum_list (map F (map snd (groupedAnalytics xs)))"
proof -
  have "mset (map F (chart_window all xs)) = mset (map F (map snd (groupedAnalytics xs)))"
    unfolding mset_map by (simp add: chart_window_def sortedChartData_def mset_sort_by)
  then show ?thesis by (rule sum_list_mset_cong)
qed

lemma cell_amount_bucket:
  "(k, b) \<in> set (groupedAnalytics xs) \<Longrightarrow> amount_or0 (get_prop b c) = cell_amount xs k c"
  by (simp add: cell_amount_def field_of_def grouped_mem_iff)

lemma category_total_all:
  "category_total (chart_window all xs) c
   = sum_list (map (\<lambda>k. cell_amount xs k c) (map fst (groupedAnalytics xs)))"
proof -
  have "map (\<lambda>b. amount_or0 (get_prop b c)) (map snd (groupedAnalytics xs))
      = map (\<lambda>k. cell_amount xs k c) (map fst (groupedAnalytics xs))"
    by (auto simp: cell_amount_bucket)
  then show ?thesis
    unfolding category_total_sum sum_list_buckets by (rule arg_cong)
qed

lemma keys_sum:
  fixes h :: "string \<Rightarrow> jsnum"
  shows "sum_list (map h (map fst (groupedAnalytics xs)))
         = sum h ((\<lambda>x. bucket_key (year x) (month x)) ` set xs)"
  using keys_grouped [of xs] sum_list_distinct_conv_sum_set [of "map fst (groupedAnalytics xs)" h]
  by simp

lemma cell_amount_no_bucket:
  "k \<notin> (\<lambda>x. bucket_key (year x) (month x)) ` set xs \<Longrightarrow> cell_amount xs k c = 0"
proof -
  assume "k \<notin> (\<lambda>x. bucket_key (year x) (month x)) ` set xs"
  then have "k \<notin> set (map fst (groupedAnalytics xs))"
    unfolding keys_grouped(2) .
  then have "map_of (groupedAnalytics xs) k = None"
    by (simp add: map_of_eq_None_iff)
  then show ?thesis
    by (simp add: cell_amount_def field_of_def)
qed

lemma window_all_length: "length (chart_window all xs) = card (year_month_of ` set xs)"
  by (simp add: chart_window_def sortedChartData_def length_sort_by length_grouped)

lemma categoryTotals_cong:
  assumes "\<forall>c\<in>set category_keys. category_total w c = category_total w' c"
  shows "categoryTotals w = categoryTotals w'"
proof -
  have "map (\<lambda>(c, col). \<lparr>ct_category = c, ct_total = category_total w c, ct_color = col\<rparr>) CATEGORY_COLORS
      = map (\<lambda>(c, col). \<lparr>ct_category = c, ct_total = category_total w' c, ct_color = col\<rparr>) CATEGORY_COLORS"
    using assms by (auto simp: category_keys_def)
  then show ?thesis unfolding categoryTotals_def by (rule arg_cong)
qed

lemma filter_sum_split:
  fixes h :: "'a \<Rightarrow> jsnum"
  assumes "\<forall>x\<in>set xs. \<not> (P x \<and> Q x)"
  shows "sum_list (map h (filter P xs)) + sum_list (map h (filter Q xs))
         = sum_list (map h (filter (\<lambda>x. P x \<or> Q x) xs))"
  using assms by (induction xs) (auto simp: ac_simps)

lemma partition_sum:
  fixes h :: "'a \<Rightarrow> jsnum"
  assumes "distinct ks"
  shows "sum_list (map (\<lambda>k. sum_list (map h (filter (\<lambda>x. g x = k) xs))) ks)
         = sum_list (map h (filter (\<lambda>x. g x \<in> set ks) xs))"
  using assms
proof (induction ks)
  case Nil
  then show ?case by simp
next
  case (Cons k ks)
  have "sum_list (map h (filter (\<lambda>x. g x = k) xs)) + sum_list (map h (filter (\<lambda>x. g x \<in> set ks) xs))
      = sum_list (map h (filter (\<lambda>x. g x = k \<or> g x \<in> set ks) xs))"
    using Cons.prems by (intro filter_sum_split) auto
  then show ?case using Cons by simp
qed

lemma cell_amount_finite:
  assumes "\<forall>x\<in>set xs. isFinite (totalAmount x)" "plain_category c"
  shows "cell_amount xs k c = sum_list (map totalAmount (records_of k c xs))"
proof -
  obtain q where "sum_list (map totalAmount (records_of k c xs)) = Fin q"
    using isFinite_sum_list [of "map totalAmount (records_of k c xs)"] assms(1)
    by (auto simp: records_of_def)
  then show ?thesis
    by (cases "records_of k c xs = []")
      (simp_all add: cell_amount_def field_of_grouped [OF assms(2)] cell_fold_None [OF assms(1)]
        zero_jsnum_def)
qed

lemma category_total_all_finite:
  assumes "\<forall>x\<in>set xs. isFinite (totalAmount x)" "plain_category c"
  shows "category_total (chart_window all xs) c
         = sum_list (map totalAmount (filter (\<lambda>x. category x = c) xs))"
proof -
  let ?ks = "map fst (groupedAnalytics xs)"
  let ?ys = "filter (\<lambda>x. category x = c) xs"
  have "category_total (chart_window all xs) c
      = sum_list (map (\<lambda>k. sum_list (map totalAmount (filter (\<lambda>x. bucket_key (year x) (month x) = k) ?ys))) ?ks)"
    unfolding category_total_all
    by (simp add: cell_amount_finite [OF assms] records_of_def conj_commute)
  also have "\<dots> = sum_list (map totalAmount (filter (\<lambda>x. bucket_key (year x) (month x) \<in> set ?ks) ?ys))"
    by (rule partition_sum) (rule keys_grouped)
  also have "filter (\<lambda>x. bucket_key (year x) (month x) \<in> set ?ks) ?ys = ?ys"
    unfolding keys_grouped(2) by (intro filter_True) simp
  finally show ?thesis .
qed

lemma grand_total_all_finite:
  assumes "\<forall>x\<in>set xs. isFinite (totalAmount x)"
  shows "totalExpenses (chart_window all xs)
         = sum_list (map totalAmount (filter (\<lambda>x. category x \<in> set category_keys) xs))"
proof -
  have "map (category_total (chart_window all xs)) category_keys
      = map (\<lambda>c. sum_list (map totalAmount (filter (\<lambda>x. category x = c) xs))) category_keys"
    using category_total_all_finite [OF assms] known_plain by simp
  then have "totalExpenses (chart_window all xs)
      = sum_list (map (\<lambda>c. sum_list (map totalAmount (filter (\<lambda>x. category x = c) xs))) category_keys)"
    unfolding totalExpenses_by_category by (rule arg_cong)
  also have "\<dots> = sum_list (map totalAmount (filter (\<lambda>x. category x \<in> set category_keys) xs))"
    by (rule partition_sum) (simp add: category_keys_def CATEGORY_COLORS_def)
  finally show ?thesis .
qed

text \<open>
  C7, as the code behaves: nothing is validated and nothing is rejected. The aggregation
  and the summary are total functions with no error among their results. For every
  collection of records with finite amounts, negative amounts and months outside 1 to 12
  among them, every record has its bucket, and over all time the total of each known
  category is the sum of the amounts of its records, and the grand total the sum of the
  amounts of the records of known categories: a negative amount lowers them.
\<close>

theorem no_record_is_rejected:
  assumes "\<forall>x\<in>set analytics. isFinite (totalAmount x)"
  shows "(\<forall>x\<in>set analytics. \<exists>b. (bucket_key (year x) (month x), b) \<in> set (groupedAnalytics analytics))
    \<and> (\<forall>c\<in>set category_keys. category_total (chart_window all analytics) c
          = sum_list (map totalAmount (filter (\<lambda>x. category x = c) analytics)))
    \<and> totalExpenses (chart_window all analytics)
        = sum_list (map totalAmount (filter (\<lambda>x. category x \<in> set category_keys) analytics))"
proof -
  have "\<exists>b. (bucket_key (year x) (month x), b) \<in> set (groupedAnalytics analytics)"
    if "x \<in> set analytics" for x
  proof -
    have "bucket_key (year x) (month x) \<in> set (map fst (groupedAnalytics analytics))"
      unfolding keys_grouped(2) using that by simp
    then show ?thesis by auto
  qed
  then show ?thesis
    using category_total_all_finite [OF assms] grand_total_all_finite [OF assms] known_plain
    by simp
qed

text \<open>
  A month 13 and an amount of -50: the bucket is made, and the grand total is 20 - 50.
\<close>

theorem no_record_is_rejected_witness:
  "list_all (\<lambda>x. isFinite (totalAmount x)) malformed
   \<and> map fst (groupedAnalytics malformed) = [''2024-13'', ''2024-1'']
   \<and> totalExpenses (chart_window all malformed) = Fin (- 30)"
proof -
  have fin: "\<forall>x\<in>set malformed. isFinite (totalAmount x)"
    by (simp add: malformed_def)
  have "map fst (groupedAnalytics malformed) = [''2024-13'', ''2024-1'']"
    by code_simp
  moreover have "sum_list (map totalAmount (filter (\<lambda>x. category x \<in> set category_keys) malformed))
      = Fin (- 30)"
    by (simp add: malformed_def category_keys_def CATEGORY_COLORS_def)
  ultimately show ?thesis
    using no_record_is_rejected [OF fin] fin by (simp add: list_all_iff)
qed

text \<open>
  The records of month 13 and of amount -50 are in the series and in the total, and an
  infinite amount makes the total infinite: no input is refused.
\<close>

theorem validation_counterexample:
  "groupedAnalytics malformed
     = [(''2024-13'', [(''month'', Str ''2024-13''), (''year'', Num (Fin 2024)),
                       (''monthNum'', Num (Fin 13)), (''label'', Opaque),
                       (''Rental'', Num (Fin (- 50)))]),
        (''2024-1'', [(''month'', Str ''2024-01''), (''year'', Num (Fin 2024)),
                      (''monthNum'', Num (Fin 1)), (''label'', Opaque),
                      (''Rental'', Num (Fin 20))])]
   \<and> totalExpenses (chart_window all malformed) = Fin (- 30)
   \<and> totalExpenses (chart_window all infinite_amount) = PosInf"
  by code_simp

section \<open>A record of an unknown category\<close>

lemma cell_amount_skip:
  assumes "category r \<noteq> c" "plain_category c"
  shows "cell_amount (pre @ r # post) k c = cell_amount (pre @ post) k c"
  using assms by (simp add: cell_amount_def field_of_grouped cell_step_def)

lemma category_total_skip:
  assumes "category r \<noteq> c" "plain_category c"
  shows "category_total (chart_window all (pre @ r # post)) c
         = category_total (chart_window all (pre @ post)) c"
proof -
  let ?K = "(\<lambda>x. bucket_key (year x) (month x)) ` set (pre @ post)"
  let ?kr = "bucket_key (year r) (month r)"
  let ?h = "\<lambda>k. cell_amount (pre @ post) k c"
  have "category_total (chart_window all (pre @ r # post)) c
      = sum (\<lambda>k. cell_amount (pre @ r # post) k c) ((\<lambda>x. bucket_key (year x) (month x)) ` set (pre @ r # post))"
    unfolding category_total_all by (rule keys_sum)
  also have "\<dots> = sum ?h (insert ?kr ?K)"
    by (simp add: cell_amount_skip [OF assms] insert_commute image_Un)
  also have "\<dots> = sum ?h ?K"
  proof (cases "?kr \<in> ?K")
    case True
    then show ?thesis by (simp add: insert_absorb)
  next
    case False
    then have "?h ?kr = 0" by (rule cell_amount_no_bucket)
    then show ?thesis using False by simp
  qed
  also have "\<dots> = category_total (chart_window all (pre @ post)) c"
    unfolding category_total_all by (rule keys_sum [symmetric])
  finally show ?thesis .
qed

lemma unknown_category_all_time:
  assumes "category r \<notin> set category_keys"
  shows "(\<exists>b. (bucket_key (year r) (month r), b) \<in> set (groupedAnalytics (pre @ r # post)))
    \<and> length (chart_window all (pre @ r # post))
        = length (chart_window all (pre @ post))
          + (if year_month_of r \<in> year_month_of ` set (pre @ post) then 0 else 1)
    \<and> (\<forall>k. \<forall>c\<in>set category_keys. cell_amount (pre @ r # post) k c = cell_amount (pre @ post) k c)
    \<and> categoryTotals (chart_window all (pre @ r # post)) = categoryTotals (chart_window all (pre @ post))
    \<and> totalExpenses (chart_window all (pre @ r # post)) = totalExpenses (chart_window all (pre @ post))"
proof -
  have ne: "category r \<noteq> c" if "c \<in> set category_keys" for c
    using assms that by auto
  have "bucket_key (year r) (month r) \<in> set (map fst (groupedAnalytics (pre @ r # post)))"
    unfolding keys_grouped(2) by simp
  then have 1: "\<exists>b. (bucket_key (year r) (month r), b) \<in> set (groupedAnalytics (pre @ r # post))"
    by auto
  have "year_month_of ` set (pre @ r # post) = insert (year_month_of r) (year_month_of ` set (pre @ post))"
    by auto
  then have 2: "length (chart_window all (pre @ r # post))
        = length (chart_window all (pre @ post))
          + (if year_month_of r \<in> year_month_of ` set (pre @ post) then 0 else 1)"
    unfolding window_all_length by (simp add: insert_absorb)
  have 3: "\<forall>k. \<forall>c\<in>set category_keys. cell_amount (pre @ r # post) k c = cell_amount (pre @ post) k c"
    using ne known_plain by (simp add: cell_amount_skip)
  have 4: "\<forall>c\<in>set category_keys. category_total (chart_window all (pre @ r # post)) c
         = category_total (chart_window all (pre @ post)) c"
    using ne known_plain by (simp add: category_total_skip)
  then have 5: "totalExpenses (chart_window all (pre @ r # post)) = totalExpenses (chart_window all (pre @ post))"
    unfolding totalExpenses_by_category by (simp cong: map_cong)
  show ?thesis
    using 1 2 3 5 categoryTotals_cong [OF 4] by blast
qed

lemma agree_but_refl: "agree_but p a a"
  by (simp add: agree_but_def)

lemma related_lookup:
  assumes "list_all2 (\<lambda>u v. fst u = fst v \<and> agree_but p (snd u) (snd v)) acc acc'"
  shows "(map_of acc k = None \<and> map_of acc' k = None)
         \<or> (\<exists>a b. map_of acc k = Some a \<and> map_of acc' k = Some b \<and> agree_but p a b)"
  using assms by (induction rule: list_all2_induct) auto

lemma related_update:
  assumes "list_all2 (\<lambda>u v. fst u = fst v \<and> agree_but p (snd u) (snd v)) acc acc'"
    and "agree_but p a b"
  shows "list_all2 (\<lambda>u v. fst u = fst v \<and> agree_but p (snd u) (snd v))
           (AList.update k a acc) (AList.update k b acc')"
  using assms by (induction rule: list_all2_induct) auto

lemma related_write:
  assumes "agree_but p a b" "c = p \<or> n = n'"
  shows "agree_but p (set_prop a c (js_plus (or0 (get_prop a c)) n))
                     (set_prop b c (js_plus (or0 (get_prop b c)) n'))"
proof (cases "c = p")
  case True
  then show ?thesis using assms(1) by (simp add: agree_but_def get_prop_set_prop)
next
  case False
  then have "get_prop a c = get_prop b c" "n = n'"
    using assms by (simp_all add: agree_but_def)
  then show ?thesis using assms(1) by (auto simp: agree_but_def get_prop_set_prop)
qed

lemma new_item_same: "year x = year y \<Longrightarrow> month x = month y \<Longrightarrow> new_item x = new_item y"
  by (simp add: new_item_def)

lemma related_step:
  assumes "list_all2 (\<lambda>u v. fst u = fst v \<and> agree_but p (snd u) (snd v)) acc acc'"
    and "same_but_amount p x y"
  shows "list_all2 (\<lambda>u v. fst u = fst v \<and> agree_but p (snd u) (snd v))
           (group_step acc x) (group_step acc' y)"
proof -
  let ?k = "bucket_key (year x) (month x)"
  have xy: "year x = year y" "month x = month y" "category x = category y"
      "category x = p \<or> totalAmount x = totalAmount y"
    using assms(2) by (auto simp: same_but_amount_def)
  define a where "a = (case map_of acc ?k of None \<Rightarrow> new_item x | Some b \<Rightarrow> b)"
  define b where "b = (case map_of acc' ?k of None \<Rightarrow> new_item y | Some b \<Rightarrow> b)"
  have "agree_but p a b"
    using related_lookup [OF assms(1), of ?k] new_item_same [OF xy(1,2)]
    by (auto simp: a_def b_def agree_but_refl)
  then have "agree_but p (set_prop a (category x) (js_plus (or0 (get_prop a (category x))) (totalAmount x)))
      (set_prop b (category x) (js_plus (or0 (get_prop b (category x))) (totalAmount y)))"
    using xy(4) by (rule related_write)
  from related_update [OF assms(1) this, of ?k] show ?thesis
    using xy by (simp add: group_step_def Let_def a_def b_def)
qed

lemma related_grouped:
  assumes "list_all2 (same_but_amount p) xs ys"
  shows "list_all2 (\<lambda>u v. fst u = fst v \<and> agree_but p (snd u) (snd v))
           (groupedAnalytics xs) (groupedAnalytics ys)"
proof -
  have "list_all2 (\<lambda>u v. fst u = fst v \<and> agree_but p (snd u) (snd v))
           (foldl group_step acc xs) (foldl group_step acc' ys)"
    if "list_all2 (\<lambda>u v. fst u = fst v \<and> agree_but p (snd u) (snd v)) acc acc'" for acc acc'
    using assms that
  proof (induction arbitrary: acc acc' rule: list_all2_induct)
    case Nil
    then show ?case by simp
  next
    case (Cons x xs y ys)
    then show ?case by (simp add: related_step)
  qed
  from this [of "[]" "[]"] show ?thesis by (simp add: groupedAnalytics_def)
qed

lemma related_insert:
  assumes "list_all2 (agree_but p) xs ys" "agree_but p x y"
    and "\<forall>a b. agree_but p a b \<longrightarrow> t a = t b"
  shows "list_all2 (agree_but p) (insert_by (\<lambda>a b. js_sub (t a) (t b)) x xs)
                                  (insert_by (\<lambda>a b. js_sub (t a) (t b)) y ys)"
  using assms
proof (induction rule: list_all2_induct)
  case Nil
  then show ?case by simp
next
  case (Cons x' xs y' ys)
  have "t x = t y" "t x' = t y'" using Cons by auto
  then show ?case using Cons by simp
qed

lemma related_sort:
  assumes "list_all2 (agree_but p) xs ys"
    and "\<forall>a b. agree_but p a b \<longrightarrow> t a = t b"
  shows "list_all2 (agree_but p) (sort_by (\<lambda>a b. js_sub (t a) (t b)) xs)
                                  (sort_by (\<lambda>a b. js_sub (t a) (t b)) ys)"
  using assms
proof (induction rule: list_all2_induct)
  case Nil
  then show ?case by (simp add: sort_by_def)
next
  case (Cons x xs y ys)
  then show ?case by (simp add: sort_by_Cons related_insert)
qed

lemma related_window:
  assumes "list_all2 (same_but_amount p) xs ys" "p \<noteq> ''month''"
  shows "list_all2 (agree_but p) (chart_window tf xs) (chart_window tf ys)"
proof -
  have "list_all2 (agree_but p) (map snd (groupedAnalytics xs)) (map snd (groupedAnalytics ys))"
    using related_grouped [OF assms(1)] by (simp add: list_all2_map1 list_all2_map2 list_all2_mono)
  moreover have "\<forall>a b. agree_but p a b \<longrightarrow> getTime (get_prop a ''month'') = getTime (get_prop b ''month'')"
    using assms(2) by (simp add: agree_but_def)
  ultimately have s: "list_all2 (agree_but p) (sortedChartData (groupedAnalytics xs))
      (sortedChartData (groupedAnalytics ys))"
    unfolding sortedChartData_def by (rule related_sort)
  then have "length (sortedChartData (groupedAnalytics xs)) = length (sortedChartData (groupedAnalytics ys))"
    by (rule list_all2_lengthD)
  then show ?thesis
    using s by (cases tf) (simp_all add: chart_window_def slice_3 slice_6 list_all2_dropI)
qed

lemma related_totals:
  assumes "list_all2 (agree_but p) w w'" "p \<notin> set category_keys"
  shows "categoryTotals w = categoryTotals w'" "totalExpenses w = totalExpenses w'"
    "length w = length w'"
proof -
  have "category_total w c = category_total w' c" if "c \<in> set category_keys" for c
  proof -
    have "c \<noteq> p" using that assms(2) by auto
    then have "list_all2 (\<lambda>a b. amount_or0 (get_prop a c) = amount_or0 (get_prop b c)) w w'"
      using assms(1) by (auto simp: agree_but_def elim!: list_all2_mono)
    then have "map (\<lambda>a. amount_or0 (get_prop a c)) w = map (\<lambda>b. amount_or0 (get_prop b c)) w'"
      by (induction rule: list_all2_induct) simp_all
    then show ?thesis unfolding category_total_sum by (rule arg_cong)
  qed
  then have eq: "\<forall>c\<in>set category_keys. category_total w c = category_total w' c"
    by simp
  then show "categoryTotals w = categoryTotals w'"
    by (rule categoryTotals_cong)
  show "totalExpenses w = totalExpenses w'"
    unfolding totalExpenses_by_category using eq by (simp cong: map_cong)
  show "length w = length w'"
    using assms(1) by (rule list_all2_lengthD)
qed

text \<open>
  Whatever the timeframe, the amount of a record of an unknown category shows nowhere in
  the summary.
\<close>

lemma unknown_amount_irrelevant:
  assumes "category r \<notin> set category_keys" "category r \<noteq> ''month''"
  shows "summaryCards l (chart_window tf (pre @ r # post))
           = summaryCards l (chart_window tf (pre @ r\<lparr>totalAmount := n\<rparr> # post))"
    and "categoryBreakdown l (chart_window tf (pre @ r # post))
           = categoryBreakdown l (chart_window tf (pre @ r\<lparr>totalAmount := n\<rparr> # post))"
proof -
  have "list_all2 (same_but_amount (category r)) (pre @ r # post) (pre @ r\<lparr>totalAmount := n\<rparr> # post)"
    by (intro list_all2_appendI list_all2_refl) (simp_all add: same_but_amount_def list_all2_same)
  from related_window [OF this assms(2), of tf] have
    "list_all2 (agree_but (category r)) (chart_window tf (pre @ r # post))
       (chart_window tf (pre @ r\<lparr>totalAmount := n\<rparr> # post))" .
  note eqs = related_totals [OF this assms(1)]
  show "summaryCards l (chart_window tf (pre @ r # post))
           = summaryCards l (chart_window tf (pre @ r\<lparr>totalAmount := n\<rparr> # post))"
    by (simp add: summaryCards_def eqs)
  show "categoryBreakdown l (chart_window tf (pre @ r # post))
           = categoryBreakdown l (chart_window tf (pre @ r\<lparr>totalAmount := n\<rparr> # post))"
    by (simp add: categoryBreakdown_def eqs)
qed

text \<open>
  C10. A record whose category is not a key of \<^verbatim>\<open>CATEGORY_COLORS\<close> has its bucket like any
  other: over all time the window has one bucket more when no other record is of its
  year and month, and as many otherwise. It adds nothing to what the summary reads: no
  amount of a known category in any bucket changes, and over all time the ranking with
  its totals and the grand total, so the shares, are what they are without the record.
  Whatever the timeframe, the cards and the breakdown do not depend on the amount of the
  record (for a category other than \<open>month\<close>, the field the series is sorted by).
\<close>

theorem unknown_category_counts_bucket_not_amount:
  assumes "category r \<notin> set category_keys"
  shows "(\<exists>b. (bucket_key (year r) (month r), b) \<in> set (groupedAnalytics (pre @ r # post)))
    \<and> length (chart_window all (pre @ r # post))
        = length (chart_window all (pre @ post))
          + (if year_month_of r \<in> year_month_of ` set (pre @ post) then 0 else 1)
    \<and> (\<forall>k. \<forall>c\<in>set category_keys. cell_amount (pre @ r # post) k c = cell_amount (pre @ post) k c)
    \<and> categoryTotals (chart_window all (pre @ r # post)) = categoryTotals (chart_window all (pre @ post))
    \<and> totalExpenses (chart_window all (pre @ r # post)) = totalExpenses (chart_window all (pre @ post))
    \<and> (category r \<noteq> ''month'' \<longrightarrow>
          (\<forall>tf n. summaryCards False (chart_window tf (pre @ r # post))
                    = summaryCards False (chart_window tf (pre @ r\<lparr>totalAmount := n\<rparr> # post))
                \<and> categoryBreakdown False (chart_window tf (pre @ r # post))
                    = categoryBreakdown False (chart_window tf (pre @ r\<lparr>totalAmount := n\<rparr> # post))))"
proof -
  have "summaryCards False (chart_window tf (pre @ r # post))
          = summaryCards False (chart_window tf (pre @ r\<lparr>totalAmount := n\<rparr> # post))
        \<and> categoryBreakdown False (chart_window tf (pre @ r # post))
          = categoryBreakdown False (chart_window tf (pre @ r\<lparr>totalAmount := n\<rparr> # post))"
    if "category r \<noteq> ''month''" for tf n
    using unknown_amount_irrelevant [OF assms that] by simp
  with unknown_category_all_time [OF assms, of pre post] show ?thesis
    by simp
qed

text \<open>
  Groceries in January, Education in March, Travel in February: the record of Education
  makes the third bucket, and the grand total is 150 with it and without it.
\<close>

theorem unknown_category_witness:
  "category education_march \<notin> set category_keys
   \<and> length (chart_window all (january @ february)) = 2
   \<and> length (chart_window all (january @ education_march # february)) = 3
   \<and> totalExpenses (chart_window all (january @ february)) = Fin 150
   \<and> totalExpenses (chart_window all (january @ education_march # february)) = Fin 150"
proof -
  have c: "category education_march \<notin> set category_keys"
    by (simp add: education_march_def category_keys_def CATEGORY_COLORS_def)
  have n: "year_month_of education_march \<notin> year_month_of ` set (january @ february)"
    by (simp add: education_march_def january_def february_def year_month_of_def)
  have l: "length (chart_window all (january @ february)) = 2"
    by code_simp
  have t: "totalExpenses (chart_window all (january @ february)) = Fin 150"
    by code_simp
  from unknown_category_counts_bucket_not_amount [OF c, of january february] show ?thesis
    using c n l t by simp
qed

end
